theory Spec2Isabelle
  imports Main "HOL-Library.Sublist"
begin

section \<open>Strings and characters\<close>

text \<open>
  A JavaScript string is a sequence of UTF-16 code units. The functions verified here
  look at code units only through ASCII literals, the classes \<open>\d\<close>, \<open>\s\<close> and
  \<open>.\<close>, and case folding, so a string is modelled as a \<^typ>\<open>string\<close> whose
  characters are the code units below 256.
\<close>

text \<open>
  \<open>String.prototype.toLowerCase\<close> on one code unit below 256: the ASCII capitals and
  the Latin-1 capitals (192..222 except the multiplication sign 215) move up by 32.
\<close>

definition capitals :: string where
  "capitals = ''ABCDEFGHIJKLMNOPQRSTUVWXYZ'' @
     [CHR 0xC0, CHR 0xC1, CHR 0xC2, CHR 0xC3, CHR 0xC4, CHR 0xC5, CHR 0xC6, CHR 0xC7, CHR 0xC8, CHR 0xC9,
      CHR 0xCA, CHR 0xCB, CHR 0xCC, CHR 0xCD, CHR 0xCE, CHR 0xCF, CHR 0xD0, CHR 0xD1, CHR 0xD2, CHR 0xD3,
      CHR 0xD4, CHR 0xD5, CHR 0xD6, CHR 0xD8, CHR 0xD9, CHR 0xDA, CHR 0xDB, CHR 0xDC, CHR 0xDD, CHR 0xDE]"

definition smalls :: string where
  "smalls = ''abcdefghijklmnopqrstuvwxyz'' @
     [CHR 0xE0, CHR 0xE1, CHR 0xE2, CHR 0xE3, CHR 0xE4, CHR 0xE5, CHR 0xE6, CHR 0xE7, CHR 0xE8, CHR 0xE9,
      CHR 0xEA, CHR 0xEB, CHR 0xEC, CHR 0xED, CHR 0xEE, CHR 0xEF, CHR 0xF0, CHR 0xF1, CHR 0xF2, CHR 0xF3,
      CHR 0xF4, CHR 0xF5, CHR 0xF6, CHR 0xF8, CHR 0xF9, CHR 0xFA, CHR 0xFB, CHR 0xFC, CHR 0xFD, CHR 0xFE]"

definition toLowerCase_char :: "char \<Rightarrow> char" where
  "toLowerCase_char c = (case map_of (zip capitals smalls) c of Some l \<Rightarrow> l | None \<Rightarrow> c)"

definition toLowerCase :: "string \<Rightarrow> string" where
  "toLowerCase s = map toLowerCase_char s"

text \<open>\<open>String.prototype.includes\<close>: the needle occurs as a contiguous substring.\<close>

fun starts_with :: "string \<Rightarrow> string \<Rightarrow> bool" where
  "starts_with [] s = True"
| "starts_with (p # ps) [] = False"
| "starts_with (p # ps) (c # cs) = (p = c \<and> starts_with ps cs)"

fun str_includes :: "string \<Rightarrow> string \<Rightarrow> bool" where
  "str_includes [] needle = starts_with needle []"
| "str_includes (c # cs) needle = (starts_with needle (c # cs) \<or> str_includes cs needle)"

section \<open>Regular expressions of the overflow table\<close>

text \<open>
  The patterns of \<open>OVERFLOW_PATTERN_CONFIG\<close> use literals, \<open>.\<close>, \<open>\d\<close>, \<open>\s\<close>,
  a bracket class, \<open>*\<close>, \<open>+\<close>, \<open>?\<close>, alternation and (in the status-code form) the
  anchor \<open>^\<close>, all under the flag \<open>i\<close>. Without the flag \<open>u\<close> a character of the
  pattern and one of the input agree under \<open>i\<close> when their upper-case forms agree, and
  a code unit of 128 or more never folds to an ASCII one, so for ASCII literals only the
  ASCII letters fold.
\<close>

datatype cls =
    Lit char
  | AnyChar
  | Digit
  | Space
  | OneOf string

datatype rx =
    Null
  | Eps
  | Ch cls
  | Seq rx rx
  | Alt rx rx
  | Star rx

definition ascii_upper :: "char \<Rightarrow> char" where
  "ascii_upper c =
     (case map_of (zip ''abcdefghijklmnopqrstuvwxyz'' ''ABCDEFGHIJKLMNOPQRSTUVWXYZ'') c of
        Some u \<Rightarrow> u
      | None \<Rightarrow> c)"

text \<open>
  \<open>.\<close> leaves out the line terminators, \<open>\d\<close> is an ASCII digit, and \<open>\s\<close>
  below 256 is tab, line feed, vertical tab, form feed, carriage return, space and the
  no-break space.
\<close>

fun cls_match :: "cls \<Rightarrow> char \<Rightarrow> bool" where
  "cls_match (Lit a) c = (ascii_upper a = ascii_upper c)"
| "cls_match AnyChar c = (c \<notin> set [CHR 0x0A, CHR 0x0D])"
| "cls_match Digit c = (c \<in> set ''0123456789'')"
| "cls_match Space c =
     (c \<in> set [CHR 0x09, CHR 0x0A, CHR 0x0B, CHR 0x0C, CHR 0x0D, CHR 0x20, CHR 0xA0])"
| "cls_match (OneOf s) c = (ascii_upper c \<in> set (map ascii_upper s))"

fun nullable :: "rx \<Rightarrow> bool" where
  "nullable Null = False"
| "nullable Eps = True"
| "nullable (Ch k) = False"
| "nullable (Seq r s) = (nullable r \<and> nullable s)"
| "nullable (Alt r s) = (nullable r \<or> nullable s)"
| "nullable (Star r) = True"

text \<open>
  Sequence and alternative that drop the empty language as soon as it appears, so that a
  failed attempt stops at once.
\<close>

fun seq :: "rx \<Rightarrow> rx \<Rightarrow> rx" where
  "seq Null s = Null"
| "seq Eps s = s"
| "seq r s = Seq r s"

fun alt :: "rx \<Rightarrow> rx \<Rightarrow> rx" where
  "alt Null s = s"
| "alt r Null = r"
| "alt r s = Alt r s"

fun deriv :: "char \<Rightarrow> rx \<Rightarrow> rx" where
  "deriv c Null = Null"
| "deriv c Eps = Null"
| "deriv c (Ch k) = (if cls_match k c then Eps else Null)"
| "deriv c (Seq r s) =
     (if nullable r then alt (seq (deriv c r) s) (deriv c s) else seq (deriv c r) s)"
| "deriv c (Alt r s) = alt (deriv c r) (deriv c s)"
| "deriv c (Star r) = seq (deriv c r) (Star r)"

text \<open>Some prefix of the input is matched by the expression.\<close>

fun match_prefix :: "rx \<Rightarrow> string \<Rightarrow> bool" where
  "match_prefix Null s = False"
| "match_prefix r [] = nullable r"
| "match_prefix r (c # cs) = (if nullable r then True else match_prefix (deriv c r) cs)"

text \<open>\<open>RegExp.prototype.test\<close> for an unanchored pattern: a match at some position.\<close>

fun rx_test :: "rx \<Rightarrow> string \<Rightarrow> bool" where
  "rx_test r [] = nullable r"
| "rx_test r (c # cs) = (if match_prefix r (c # cs) then True else rx_test r cs)"

text \<open>
  The language of an expression: what the matcher is meant to decide (see the properties
  of the matcher below).
\<close>

definition lang_conc :: "string set \<Rightarrow> string set \<Rightarrow> string set" where
  "lang_conc A B = {u @ v |u v. u \<in> A \<and> v \<in> B}"

inductive_set lang_star :: "string set \<Rightarrow> string set" for A :: "string set" where
  empty: "[] \<in> lang_star A"
| more: "u \<in> A \<Longrightarrow> v \<in> lang_star A \<Longrightarrow> u @ v \<in> lang_star A"

fun lang :: "rx \<Rightarrow> string set" where
  "lang Null = {}"
| "lang Eps = {[]}"
| "lang (Ch k) = {[c] |c. cls_match k c}"
| "lang (Seq r s) = lang_conc (lang r) (lang s)"
| "lang (Alt r s) = lang r \<union> lang s"
| "lang (Star r) = lang_star (lang r)"

definition lits :: "string \<Rightarrow> rx" where
  "lits s = foldr (\<lambda>c r. Seq (Ch (Lit c)) r) s Eps"

definition rx_plus :: "rx \<Rightarrow> rx" where
  "rx_plus r = Seq r (Star r)"

definition rx_opt :: "rx \<Rightarrow> rx" where
  "rx_opt r = Alt r Eps"

section \<open>Messages\<close>

datatype stop_reason = Stop | Length | ToolUse | Error | Aborted

text \<open>
  Token counts are JavaScript numbers, that is IEEE doubles, holding integers; the derived
  \<open>cost\<close> record is read by none of the functions below and is left out. A double
  holds every integer from \<open>-2^53\<close> to \<open>2^53\<close> exactly. The sum of two of them is
  exact up to \<open>2^53\<close> in size; beyond (it is below \<open>2^54\<close> in size then, or
  \<open>2^54\<close> itself) the doubles are the even integers, an even sum is exact and an odd
  sum is a tie between its two neighbours, which goes to the one with the even
  significand: the multiple of 4.
\<close>

definition double_int :: "int \<Rightarrow> bool" where
  "double_int n = (- (2 ^ 53) \<le> n \<and> n \<le> 2 ^ 53)"

definition js_add :: "int \<Rightarrow> int \<Rightarrow> int" where
  "js_add a b =
     (let s = a + b
      in if double_int s then s
         else if even s then s
         else if (s + 1) mod 4 = 0 then s + 1
         else s - 1)"

record usage =
  input :: int
  output_tokens :: int
  cacheRead :: int
  cacheWrite :: int
  totalTokens :: int

datatype json =
    JNull
  | JBool bool
  | JNum int
  | JStr string
  | JArr "json list"
  | JObj "(string \<times> json) list"

record tool_call =
  tcId :: string
  tcName :: string
  tcArguments :: json
  thoughtSignature :: "string option"

datatype block =
    Text string
  | Thinking string "string option"
  | ToolCall tool_call

record assistant_message =
  content :: "block list"
  api :: string
  provider :: string
  model :: string
  usage :: usage
  stopReason :: stop_reason
  errorMessage :: "string option"
  timestamp :: int

text \<open>An assistant message with nothing in it, the base of the examples.\<close>

definition blank_message :: assistant_message where
  "blank_message =
     \<lparr>content = [], api = ''openai-completions'', provider = ''openai'', model = ''gpt-test'',
      usage = \<lparr>input = 0, output_tokens = 0, cacheRead = 0, cacheWrite = 0, totalTokens = 0\<rparr>,
      stopReason = Stop, errorMessage = None, timestamp = 0\<rparr>"

section \<open>Context overflow detection\<close>

definition OVERFLOW_PATTERN_CONFIG :: "(rx \<times> string) list" where
  "OVERFLOW_PATTERN_CONFIG =
    [ (lits ''prompt is too long'', ''Trim prior messages or reduce system prompt size.''),
      (lits ''input is too long for requested model'',
         ''Use a larger context model or shorten history.''),
      (lits ''exceeds the context window'',
         ''Drop old turns and retry with summarized context.''),
      (Seq (lits ''input token count'') (Seq (Star (Ch AnyChar)) (lits ''exceeds the maximum'')),
         ''Reduce attachments or split the request.''),
      (Seq (lits ''maximum prompt length is '') (rx_plus (Ch Digit)),
         ''Decrease prompt/tool-result verbosity.''),
      (lits ''reduce the length of the messages'', ''Compress or summarize conversation state.''),
      (Seq (lits ''maximum context length is '') (Seq (rx_plus (Ch Digit)) (lits '' tokens'')),
         ''Select a provider/model with larger window.''),
      (Seq (lits ''exceeds the limit of '') (rx_plus (Ch Digit)),
         ''Remove large blocks in latest user/tool messages.''),
      (lits ''exceeds the available context size'', ''Increase server context if supported.''),
      (lits ''greater than the context length'', ''Lower keep tokens / trim prompt.''),
      (lits ''context window exceeds limit'', ''Summarize earlier turns before retrying.''),
      (Seq (lits ''context'') (Seq (Ch (OneOf ''_ '')) (Seq (lits ''length'')
          (Seq (Ch (OneOf ''_ '')) (lits ''exceeded'')))),
         ''Prune context to fit model limits.''),
      (lits ''too many tokens'', ''Shorten request and retry.''),
      (lits ''token limit exceeded'', ''Trim input and reduce output token budget.'') ]"

text \<open>
  The status-code form \<open>/^4(00|13|29)\s*(status code)?\s*\(no body\)/i\<close>. It is
  anchored at the start, so it is tried at position 0 only.
\<close>

definition status_code_rx :: rx where
  "status_code_rx =
     Seq (lits ''4'') (Seq (Alt (lits ''00'') (Alt (lits ''13'') (lits ''29'')))
       (Seq (Star (Ch Space)) (Seq (rx_opt (lits ''status code''))
         (Seq (Star (Ch Space)) (lits ''(no body)'')))))"

definition matches_overflow_table :: "string \<Rightarrow> bool" where
  "matches_overflow_table e = list_ex (\<lambda>entry. rx_test (fst entry) e) OVERFLOW_PATTERN_CONFIG"

definition matches_status_form :: "string \<Rightarrow> bool" where
  "matches_status_form e = match_prefix status_code_rx e"

text \<open>
  \<open>isContextOverflow(message, contextWindow?)\<close>. The guard \<open>message.errorMessage\<close>
  is a truthiness test (absent and empty both fail it), and so is \<open>contextWindow\<close>
  (absent and 0 both fail it). \<open>usage.input + usage.cacheRead\<close> is the sum of two
  doubles; the token counts and the window are taken to be integers that a double holds
  (\<^const>\<open>double_int\<close>).
\<close>

definition isContextOverflow :: "assistant_message \<Rightarrow> int option \<Rightarrow> bool" where
  "isContextOverflow message contextWindow =
     (let byErrorMessage =
            (case errorMessage message of
               None \<Rightarrow> False
             | Some e \<Rightarrow>
                 stopReason message = Error \<and> e \<noteq> []
                 \<and> (matches_overflow_table e \<or> matches_status_form e))
      in if byErrorMessage then True
         else (case contextWindow of
                 None \<Rightarrow> False
               | Some w \<Rightarrow>
                   w \<noteq> 0 \<and> stopReason message = Stop
                   \<and> js_add (input (usage message)) (cacheRead (usage message)) > w))"

section \<open>Retry executor\<close>

datatype error_code = rate_limit | timeout | network | validation | auth | unknown

text \<open>
  What an operation can throw: \<open>undefined\<close>, some other value that is not an
  \<open>Error\<close>, an \<open>Error\<close> with its message, or a \<open>SimpleOptionsProviderError\<close>
  with its message, code and cause (\<open>Undefined\<close> when there is none).
\<close>

datatype thrown =
    Undefined
  | OtherValue
  | JsError string
  | SimpleOptionsProviderError string error_code thrown

fun code_of :: "thrown \<Rightarrow> error_code option" where
  "code_of (SimpleOptionsProviderError msg c cause) = Some c"
| "code_of t = None"

fun normalizeProviderError :: "thrown \<Rightarrow> thrown" where
  "normalizeProviderError (SimpleOptionsProviderError msg c cause) =
     SimpleOptionsProviderError msg c cause"
| "normalizeProviderError (JsError msg) =
     (let message = toLowerCase msg
      in if str_includes message ''rate'' \<and> str_includes message ''limit''
           then SimpleOptionsProviderError msg rate_limit (JsError msg)
         else if str_includes message ''timeout'' \<or> str_includes message ''timed out''
           then SimpleOptionsProviderError msg timeout (JsError msg)
         else if str_includes message ''network'' \<or> str_includes message ''fetch''
           then SimpleOptionsProviderError msg network (JsError msg)
         else if str_includes message ''auth'' \<or> str_includes message ''unauthorized''
                 \<or> str_includes message ''forbidden''
           then SimpleOptionsProviderError msg auth (JsError msg)
         else if str_includes message ''invalid'' \<or> str_includes message ''schema''
                 \<or> str_includes message ''validation''
           then SimpleOptionsProviderError msg validation (JsError msg)
         else SimpleOptionsProviderError msg unknown (JsError msg))"
| "normalizeProviderError e = SimpleOptionsProviderError ''Unknown provider error'' unknown e"

text \<open>
  \<open>RetryPolicy\<close>. The numbers are JavaScript numbers holding integers. The policy has
  no field for a cancellation signal.
\<close>

record retry_policy =
  maxAttempts :: int
  baseDelayMs :: int
  maxDelayMs :: "int option"
  shouldRetry :: "(thrown \<Rightarrow> int \<Rightarrow> bool) option"

definition MAX_SAFE_INTEGER :: int where
  "MAX_SAFE_INTEGER = 9007199254740991"

text \<open>
  An operation is a function without arguments whose every invocation settles with a
  value or throws; \<open>operation k\<close> is what invocation number \<open>k\<close> (from 0) does. A run of
  the executor is described by its outcome, the number of invocations of the operation,
  and the delays slept between the attempts.
\<close>

record 'a retry_run =
  outcome :: "thrown + 'a"
  calls :: nat
  delays :: "int list"

definition defaultRetryable :: "thrown \<Rightarrow> bool" where
  "defaultRetryable normalized =
     (code_of normalized = Some rate_limit \<or> code_of normalized = Some timeout
        \<or> code_of normalized = Some network)"

definition backoff :: "retry_policy \<Rightarrow> int \<Rightarrow> int" where
  "backoff policy attempt =
     (let maxDelay = (case maxDelayMs policy of Some d \<Rightarrow> d | None \<Rightarrow> MAX_SAFE_INTEGER)
      in min (baseDelayMs policy * 2 ^ nat (attempt - 1)) maxDelay)"

text \<open>
  The \<open>while (attempt < policy.maxAttempts)\<close> loop, with the state it carries: the
  attempt counter, the last error, the invocations made and the delays slept so far.
\<close>

function retry_loop ::
  "(nat \<Rightarrow> thrown + 'a) \<Rightarrow> retry_policy \<Rightarrow> int \<Rightarrow> thrown \<Rightarrow> nat \<Rightarrow> int list \<Rightarrow> 'a retry_run"
where
  "retry_loop operation policy attempt lastError n ds =
     (if attempt < maxAttempts policy then
        (case operation n of
           Inr v \<Rightarrow> \<lparr>outcome = Inr v, calls = Suc n, delays = ds\<rparr>
         | Inl error \<Rightarrow>
             (let normalized = normalizeProviderError error;
                  retryable = (case shouldRetry policy of
                                 Some f \<Rightarrow> f error (attempt + 1)
                               | None \<Rightarrow> defaultRetryable normalized)
              in if \<not> retryable \<or> attempt + 1 \<ge> maxAttempts policy
                 then \<lparr>outcome = Inl normalized, calls = Suc n, delays = ds\<rparr>
                 else retry_loop operation policy (attempt + 1) error (Suc n)
                        (ds @ [backoff policy (attempt + 1)])))
      else \<lparr>outcome = Inl (normalizeProviderError lastError), calls = n, delays = ds\<rparr>)"
  by pat_completeness auto
termination
  by (relation "measure (\<lambda>(operation, policy, attempt, lastError, n, ds).
        nat (maxAttempts policy - attempt))") auto

definition executeWithRetry :: "(nat \<Rightarrow> thrown + 'a) \<Rightarrow> retry_policy \<Rightarrow> 'a retry_run" where
  "executeWithRetry operation policy = retry_loop operation policy 0 Undefined 0 []"

text \<open>
  The call sites hold the cancellation signal. The request of the Kimi adapter passes the
  signal to \<open>fetch\<close> inside the operation and asks for a single attempt when a signal
  is supplied: \<open>maxAttempts: options?.signal ? 1 : 3, baseDelayMs: 250\<close>. What
  \<open>fetch\<close> does with the signal is outside the repository and is a parameter.
\<close>

record abort_signal =
  aborted :: bool

definition kimi_request ::
  "(abort_signal option \<Rightarrow> nat \<Rightarrow> thrown + 'a) \<Rightarrow> abort_signal option \<Rightarrow> 'a retry_run" where
  "kimi_request fetch signal =
     executeWithRetry (fetch signal)
       \<lparr>maxAttempts = (if signal \<noteq> None then 1 else 3), baseDelayMs = 250,
        maxDelayMs = None, shouldRetry = None\<rparr>"

section \<open>Message history\<close>

datatype part = TextPart string | ImagePart string string

datatype user_content = Plain string | Parts "part list"

record user_message =
  userContent :: user_content
  userTimestamp :: int

record tool_result_message =
  toolCallId :: string
  toolName :: string
  resultContent :: "part list"
  isError :: bool
  resultTimestamp :: int

datatype message =
    UserMessage user_message
  | AssistantMessage assistant_message
  | ToolResultMessage tool_result_message

text \<open>The fields of the target \<open>Model\<close> that the transformation reads.\<close>

record target_model =
  modelId :: string
  modelApi :: string
  modelProvider :: string

section \<open>Cross-model message transformation\<close>

text \<open>
  \<open>String.prototype.trim\<close> strips white space and line terminators at both ends.
\<close>

definition is_white_space :: "char \<Rightarrow> bool" where
  "is_white_space c = cls_match Space c"

definition trim :: "string \<Rightarrow> string" where
  "trim s = rev (dropWhile is_white_space (rev (dropWhile is_white_space s)))"

text \<open>Truthiness of an optional string: present and not empty.\<close>

fun truthy :: "string option \<Rightarrow> bool" where
  "truthy None = False"
| "truthy (Some s) = (s \<noteq> [])"

type_synonym id_normalizer = "string \<Rightarrow> target_model \<Rightarrow> assistant_message \<Rightarrow> string"

type_synonym id_map = "string \<rightharpoonup> string"

definition isSameModel :: "assistant_message \<Rightarrow> target_model \<Rightarrow> bool" where
  "isSameModel assistantMsg m =
     (provider assistantMsg = modelProvider m \<and> api assistantMsg = modelApi m
        \<and> model assistantMsg = modelId m)"

text \<open>
  The callback of \<open>content.flatMap\<close>: the blocks that replace one block, and the
  \<open>toolCallIdMap\<close> after it.
\<close>

fun normalize_block ::
  "target_model \<Rightarrow> id_normalizer option \<Rightarrow> assistant_message \<Rightarrow> id_map \<Rightarrow> block
     \<Rightarrow> block list \<times> id_map"
where
  "normalize_block m normalizeToolCallId assistantMsg idmap (Thinking thinking thinkingSignature) =
     (if isSameModel assistantMsg m \<and> truthy thinkingSignature
        then ([Thinking thinking thinkingSignature], idmap)
      else if thinking = [] \<or> trim thinking = [] then ([], idmap)
      else if isSameModel assistantMsg m then ([Thinking thinking thinkingSignature], idmap)
      else ([Text thinking], idmap))"
| "normalize_block m normalizeToolCallId assistantMsg idmap (Text t) =
     (if isSameModel assistantMsg m then ([Text t], idmap) else ([Text t], idmap))"
| "normalize_block m normalizeToolCallId assistantMsg idmap (ToolCall toolCall) =
     (let stripped =
            (if \<not> isSameModel assistantMsg m \<and> truthy (thoughtSignature toolCall)
             then toolCall\<lparr>thoughtSignature := None\<rparr> else toolCall)
      in case normalizeToolCallId of
           None \<Rightarrow> ([ToolCall stripped], idmap)
         | Some nf \<Rightarrow>
             if isSameModel assistantMsg m then ([ToolCall stripped], idmap)
             else (let normalizedId = nf (tcId toolCall) m assistantMsg
                   in if normalizedId \<noteq> tcId toolCall
                      then ([ToolCall (stripped\<lparr>tcId := normalizedId\<rparr>)],
                            idmap(tcId toolCall \<mapsto> normalizedId))
                      else ([ToolCall stripped], idmap)))"

fun normalize_content ::
  "target_model \<Rightarrow> id_normalizer option \<Rightarrow> assistant_message \<Rightarrow> id_map \<Rightarrow> block list
     \<Rightarrow> block list \<times> id_map"
where
  "normalize_content m nz assistantMsg idmap [] = ([], idmap)"
| "normalize_content m nz assistantMsg idmap (b # bs) =
     (case normalize_block m nz assistantMsg idmap b of
        (out, idmap') \<Rightarrow>
          (case normalize_content m nz assistantMsg idmap' bs of
             (rest, idmap'') \<Rightarrow> (out @ rest, idmap'')))"

text \<open>
  The callback of \<open>messages.map\<close> in \<open>NormalizeAssistantContentTransformation.apply\<close>,
  run from left to right with the map it updates.
\<close>

fun normalize_messages ::
  "target_model \<Rightarrow> id_normalizer option \<Rightarrow> id_map \<Rightarrow> message list \<Rightarrow> message list"
where
  "normalize_messages m nz idmap [] = []"
| "normalize_messages m nz idmap (UserMessage u # msgs) =
     UserMessage u # normalize_messages m nz idmap msgs"
| "normalize_messages m nz idmap (ToolResultMessage r # msgs) =
     (case idmap (toolCallId r) of
        Some normalizedId \<Rightarrow>
          (if normalizedId \<noteq> [] \<and> normalizedId \<noteq> toolCallId r
           then ToolResultMessage (r\<lparr>toolCallId := normalizedId\<rparr>)
           else ToolResultMessage r)
      | None \<Rightarrow> ToolResultMessage r)
     # normalize_messages m nz idmap msgs"
| "normalize_messages m nz idmap (AssistantMessage a # msgs) =
     (case normalize_content m nz a idmap (content a) of
        (transformedContent, idmap') \<Rightarrow>
          AssistantMessage (a\<lparr>content := transformedContent\<rparr>)
            # normalize_messages m nz idmap' msgs)"

definition NormalizeAssistantContent_apply ::
  "target_model \<Rightarrow> id_normalizer option \<Rightarrow> message list \<Rightarrow> message list" where
  "NormalizeAssistantContent_apply m nz messages = normalize_messages m nz Map.empty messages"

text \<open>
  The synthetic tool result. Its time stamp is \<open>Date.now()\<close>: the clock is a parameter,
  \<open>clock k\<close> being what read number \<open>k\<close> of the clock returns.
\<close>

definition syntheticToolResult :: "(nat \<Rightarrow> int) \<Rightarrow> nat \<Rightarrow> tool_call \<Rightarrow> tool_result_message" where
  "syntheticToolResult clock k toolCall =
     \<lparr>toolCallId = tcId toolCall, toolName = tcName toolCall,
      resultContent = [TextPart ''No result provided''], isError = True,
      resultTimestamp = clock k\<rparr>"

text \<open>
  The loop \<open>for (const tc of pendingToolCalls)\<close> that pushes a synthetic result for
  each pending call without one; \<open>k\<close> counts the reads of the clock.
\<close>

fun push_synthetic ::
  "(nat \<Rightarrow> int) \<Rightarrow> tool_call list \<Rightarrow> string set \<Rightarrow> message list \<Rightarrow> nat \<Rightarrow> message list \<times> nat"
where
  "push_synthetic clock [] existing result k = (result, k)"
| "push_synthetic clock (tc # tcs) existing result k =
     (if tcId tc \<notin> existing
      then push_synthetic clock tcs existing
             (result @ [ToolResultMessage (syntheticToolResult clock k tc)]) (Suc k)
      else push_synthetic clock tcs existing result k)"

fun toolCalls_of :: "block list \<Rightarrow> tool_call list" where
  "toolCalls_of [] = []"
| "toolCalls_of (ToolCall tc # bs) = tc # toolCalls_of bs"
| "toolCalls_of (b # bs) = toolCalls_of bs"

text \<open>
  The loop of \<open>InsertSyntheticToolResultsTransformation.apply\<close> over the messages, with
  the state it carries: \<open>result\<close>, \<open>pendingToolCalls\<close>, \<open>existingToolResultIds\<close>
  and the number of clock reads. Nothing is pushed after the loop.
\<close>

fun insert_loop ::
  "(nat \<Rightarrow> int) \<Rightarrow> message list \<Rightarrow> message list \<Rightarrow> tool_call list \<Rightarrow> string set \<Rightarrow> nat
     \<Rightarrow> message list"
where
  "insert_loop clock [] result pending existing k = result"
| "insert_loop clock (AssistantMessage a # msgs) result pending existing k =
     (case (if pending \<noteq> []
            then (case push_synthetic clock pending existing result k of
                    (result', k') \<Rightarrow> (result', [], {}, k'))
            else (result, pending, existing, k)) of
        (result1, pending1, existing1, k1) \<Rightarrow>
          if stopReason a = Error \<or> stopReason a = Aborted
          then insert_loop clock msgs result1 pending1 existing1 k1
          else if toolCalls_of (content a) \<noteq> []
          then insert_loop clock msgs (result1 @ [AssistantMessage a])
                 (toolCalls_of (content a)) {} k1
          else insert_loop clock msgs (result1 @ [AssistantMessage a]) pending1 existing1 k1)"
| "insert_loop clock (ToolResultMessage r # msgs) result pending existing k =
     insert_loop clock msgs (result @ [ToolResultMessage r]) pending
       (insert (toolCallId r) existing) k"
| "insert_loop clock (UserMessage u # msgs) result pending existing k =
     (if pending \<noteq> []
      then (case push_synthetic clock pending existing result k of
              (result', k') \<Rightarrow> insert_loop clock msgs (result' @ [UserMessage u]) [] {} k')
      else insert_loop clock msgs (result @ [UserMessage u]) pending existing k)"

definition InsertSyntheticToolResults_apply :: "(nat \<Rightarrow> int) \<Rightarrow> message list \<Rightarrow> message list" where
  "InsertSyntheticToolResults_apply clock messages = insert_loop clock messages [] [] {} 0"

text \<open>
  \<open>MessageTransformationPipeline.transform\<close>: every message is validated before the
  first stage and after each stage. \<open>validateMessage\<close> lives in \<open>types.ts\<close>, which is
  not among the sources, and is a parameter: true when the message passes, false when
  \<open>validateMessage\<close> throws. The \<open>debug\<close> hook is not set by \<open>transformMessages\<close>.
\<close>

datatype pipeline_error = InvalidMessage

fun run_transformations ::
  "(message \<Rightarrow> bool) \<Rightarrow> (message list \<Rightarrow> message list) list \<Rightarrow> message list
     \<Rightarrow> pipeline_error + message list"
where
  "run_transformations validateMessage [] current = Inr current"
| "run_transformations validateMessage (transformation # ts) current =
     (if list_all validateMessage (transformation current)
      then run_transformations validateMessage ts (transformation current)
      else Inl InvalidMessage)"

definition pipeline_transform ::
  "(message \<Rightarrow> bool) \<Rightarrow> (message list \<Rightarrow> message list) list \<Rightarrow> message list
     \<Rightarrow> pipeline_error + message list" where
  "pipeline_transform validateMessage transformations messages =
     (if list_all validateMessage messages
      then run_transformations validateMessage transformations messages
      else Inl InvalidMessage)"

definition transformMessages ::
  "(message \<Rightarrow> bool) \<Rightarrow> (nat \<Rightarrow> int) \<Rightarrow> message list \<Rightarrow> target_model \<Rightarrow> id_normalizer option
     \<Rightarrow> pipeline_error + message list" where
  "transformMessages validateMessage clock messages m normalizeToolCallId =
     pipeline_transform validateMessage
       [NormalizeAssistantContent_apply m normalizeToolCallId,
        InsertSyntheticToolResults_apply clock]
       messages"

text \<open>
  For the proofs: what the loop appends to \<open>result\<close>, as a function of the rest of its
  state, and the synthetic results of one flush.
\<close>

fun synthetic_for :: "(nat \<Rightarrow> int) \<Rightarrow> tool_call list \<Rightarrow> string set \<Rightarrow> nat \<Rightarrow> message list" where
  "synthetic_for clock [] existing k = []"
| "synthetic_for clock (tc # tcs) existing k =
     (if tcId tc \<notin> existing
      then ToolResultMessage (syntheticToolResult clock k tc)
             # synthetic_for clock tcs existing (Suc k)
      else synthetic_for clock tcs existing k)"

fun appended ::
  "(nat \<Rightarrow> int) \<Rightarrow> message list \<Rightarrow> tool_call list \<Rightarrow> string set \<Rightarrow> nat \<Rightarrow> message list"
where
  "appended clock [] pending existing k = []"
| "appended clock (AssistantMessage a # msgs) pending existing k =
     synthetic_for clock pending existing k @
     (if stopReason a = Error \<or> stopReason a = Aborted
      then appended clock msgs [] {} (k + length (synthetic_for clock pending existing k))
      else AssistantMessage a #
           appended clock msgs (toolCalls_of (content a)) {}
             (k + length (synthetic_for clock pending existing k)))"
| "appended clock (ToolResultMessage r # msgs) pending existing k =
     ToolResultMessage r # appended clock msgs pending (insert (toolCallId r) existing) k"
| "appended clock (UserMessage u # msgs) pending existing k =
     synthetic_for clock pending existing k @
     UserMessage u # appended clock msgs [] {} (k + length (synthetic_for clock pending existing k))"

text \<open>A normalizer that leaves its own results alone, whatever the source message.\<close>

definition idempotent_normalizer :: "target_model \<Rightarrow> id_normalizer option \<Rightarrow> bool" where
  "idempotent_normalizer m nz =
     (case nz of
        None \<Rightarrow> True
      | Some nf \<Rightarrow>
          (\<forall>i src src'. nf (nf i m src) m src' = nf i m src))"

text \<open>
  The normalizer that the adapters of the repository pass to \<open>transformMessages\<close>
  (\<open>normalizeToolCallId\<close> of \<open>provider-consolidation.ts\<close>; the model arrives in the
  place of \<open>maxLength\<close>, so the length is 64): every code unit outside
  \<open>[a-zA-Z0-9_-]\<close> becomes \<open>_\<close> and the result is cut to 64.
\<close>

definition id_char :: "char \<Rightarrow> bool" where
  "id_char c =
     (c \<in> set ''abcdefghijklmnopqrstuvwxyzABCDEFGHIJKLMNOPQRSTUVWXYZ0123456789_-'')"

definition normalizeToolCallId :: id_normalizer where
  "normalizeToolCallId i m src = take 64 (map (\<lambda>c. if id_char c then c else CHR ''_'') i)"

definition norm_prefix :: id_normalizer where
  "norm_prefix i m src = ''norm-'' @ i"

text \<open>
  What becomes of a tool call of a message from another model under that normalizer: its
  id gets the prefix, and a thought signature that is not empty is removed.
\<close>

definition renamed :: "tool_call \<Rightarrow> tool_call" where
  "renamed tc =
     tc\<lparr>tcId := ''norm-'' @ tcId tc,
        thoughtSignature := (if truthy (thoughtSignature tc) then None
                             else thoughtSignature tc)\<rparr>"

fun is_assistant :: "message \<Rightarrow> bool" where
  "is_assistant (AssistantMessage a) = True"
| "is_assistant msg = False"

text \<open>
  Example data, after the repository's test of the pipeline: the history was produced by
  \<open>gpt-test\<close> (the model of \<^const>\<open>blank_message\<close>) and is transformed for
  \<open>other-model\<close> of the same provider and protocol.
\<close>

definition other_model :: target_model where
  "other_model =
     \<lparr>modelId = ''other-model'', modelApi = ''openai-completions'', modelProvider = ''openai''\<rparr>"

definition call :: "string \<Rightarrow> block" where
  "call i = ToolCall \<lparr>tcId = i, tcName = ''search'', tcArguments = JObj [],
                      thoughtSignature = None\<rparr>"

definition assistant_calling :: "string \<Rightarrow> string \<Rightarrow> stop_reason \<Rightarrow> message" where
  "assistant_calling producer i reason =
     AssistantMessage (blank_message\<lparr>content := [call i], model := producer,
                                      stopReason := reason\<rparr>)"

definition result_for :: "string \<Rightarrow> message" where
  "result_for i =
     ToolResultMessage \<lparr>toolCallId = i, toolName = ''search'', resultContent = [],
                        isError = False, resultTimestamp = 0\<rparr>"

definition no_result_for :: "string \<Rightarrow> int \<Rightarrow> message" where
  "no_result_for i t =
     ToolResultMessage \<lparr>toolCallId = i, toolName = ''search'',
                        resultContent = [TextPart ''No result provided''],
                        isError = True, resultTimestamp = t\<rparr>"

definition continue :: message where
  "continue = UserMessage \<lparr>userContent = Plain ''continue'', userTimestamp = 0\<rparr>"

text \<open>
  The messages of its input that the repair stage pushes to its result: all but the
  assistant messages that stopped with \<open>error\<close> or \<open>aborted\<close>.
\<close>

fun kept :: "message \<Rightarrow> bool" where
  "kept (AssistantMessage a) = (stopReason a \<noteq> Error \<and> stopReason a \<noteq> Aborted)"
| "kept msg = True"

section \<open>Streaming JSON parser\<close>

text \<open>
  \<open>JSON.parse\<close> and the \<open>parse\<close> of the package \<open>partial-json\<close> are outside the
  repository and are parameters: each returns a value or throws, and what is thrown is
  recorded by the message the \<open>catch\<close> clause derives from it. \<open>JNull\<close> also stands
  for \<open>undefined\<close>, which \<open>??\<close> treats alike.
\<close>

record parse_options =
  fallbackValue :: "json option"
  allowPartial :: "bool option"
  trimInput :: "bool option"

record parse_result =
  parsedValue :: json
  parsed :: bool
  usedPartialParser :: bool
  parseError :: "string option"

definition nullish_or :: "json \<Rightarrow> json \<Rightarrow> json" where
  "nullish_or v d = (case v of JNull \<Rightarrow> d | _ \<Rightarrow> v)"

definition fallback_of :: "parse_options \<Rightarrow> json" where
  "fallback_of options =
     (case fallbackValue options of None \<Rightarrow> JObj [] | Some v \<Rightarrow> nullish_or v (JObj []))"

definition parseStreamingJsonWithDiagnostics ::
  "(string \<Rightarrow> string + json) \<Rightarrow> (string \<Rightarrow> string + json) \<Rightarrow> string option \<Rightarrow> parse_options
     \<Rightarrow> parse_result" where
  "parseStreamingJsonWithDiagnostics JSON_parse partialParse partialJson options =
     (let fallback = fallback_of options;
          inp = (if trimInput options = Some False then partialJson
                 else map_option trim partialJson)
      in case inp of
           None \<Rightarrow> \<lparr>parsedValue = fallback, parsed = False, usedPartialParser = False,
                      parseError = None\<rparr>
         | Some s \<Rightarrow>
             if s = [] then \<lparr>parsedValue = fallback, parsed = False, usedPartialParser = False,
                              parseError = None\<rparr>
             else (case JSON_parse s of
                     Inr v \<Rightarrow> \<lparr>parsedValue = v, parsed = True, usedPartialParser = False,
                                 parseError = None\<rparr>
                   | Inl jsonError \<Rightarrow>
                       if allowPartial options = Some False
                       then \<lparr>parsedValue = fallback, parsed = False, usedPartialParser = False,
                             parseError = Some jsonError\<rparr>
                       else (case partialParse s of
                               Inr result \<Rightarrow>
                                 \<lparr>parsedValue = nullish_or result fallback, parsed = True,
                                  usedPartialParser = True, parseError = None\<rparr>
                             | Inl partialError \<Rightarrow>
                                 \<lparr>parsedValue = fallback, parsed = False,
                                  usedPartialParser = True, parseError = Some partialError\<rparr>)))"

definition parseStreamingJson ::
  "(string \<Rightarrow> string + json) \<Rightarrow> (string \<Rightarrow> string + json) \<Rightarrow> string option \<Rightarrow> parse_options
     \<Rightarrow> json" where
  "parseStreamingJson JSON_parse partialParse partialJson options =
     parsedValue (parseStreamingJsonWithDiagnostics JSON_parse partialParse partialJson options)"

text \<open>The two inputs of the examples: the text \<open>{"a":\<close> and the text \<open>not json\<close>.\<close>

definition truncated_object :: string where
  "truncated_object = [CHR ''{'', CHR 0x22, CHR ''a'', CHR 0x22, CHR '':'']"

definition not_json :: string where
  "not_json = ''not json''"

definition default_options :: parse_options where
  "default_options = \<lparr>fallbackValue = None, allowPartial = None, trimInput = None\<rparr>"

section \<open>Event stream\<close>

text \<open>
  The constructor's arguments: \<open>isComplete\<close>, \<open>extractResult\<close> and
  \<open>options.historyLimit\<close>.
\<close>

record ('e, 'r) stream_config =
  isComplete :: "'e \<Rightarrow> bool"
  extractResult :: "'e \<Rightarrow> 'r"
  historyLimit :: "int option"

datatype 'e iterator_result = Value 'e | Done

text \<open>
  The fields of an \<open>EventStream\<close>. A waiting consumer is the \<open>resolve\<close> callback it
  left in \<open>waiting\<close>, named by a number; \<open>notified\<close> records the callbacks called so
  far, each with its argument. \<open>finalResult\<close> is the state of \<open>finalResultPromise\<close>:
  \<open>None\<close> while it is pending, \<open>Some r\<close> once it is resolved with \<open>r\<close>.
\<close>

record ('e, 'r) event_stream =
  queue :: "'e list"
  waiting :: "nat list"
  is_done :: bool
  finalResult :: "'r option"
  history :: "'e list"
  notified :: "(nat \<times> 'e iterator_result) list"

definition new_stream :: "('e, 'r) event_stream" where
  "new_stream = \<lparr>queue = [], waiting = [], is_done = False, finalResult = None,
                 history = [], notified = []\<rparr>"

text \<open>Resolving a promise that is already resolved changes nothing.\<close>

definition resolveFinalResult :: "'r \<Rightarrow> ('e, 'r) event_stream \<Rightarrow> ('e, 'r) event_stream" where
  "resolveFinalResult r s = (case finalResult s of None \<Rightarrow> s\<lparr>finalResult := Some r\<rparr> | Some r' \<Rightarrow> s)"

definition pushHistory ::
  "('e, 'r) stream_config \<Rightarrow> 'e \<Rightarrow> ('e, 'r) event_stream \<Rightarrow> ('e, 'r) event_stream" where
  "pushHistory cfg event s =
     (let h = history s @ [event]
      in case historyLimit cfg of
           None \<Rightarrow> s\<lparr>history := h\<rparr>
         | Some limit \<Rightarrow>
             if limit \<noteq> 0 \<and> limit > 0 \<and> int (length h) > limit
             then s\<lparr>history := drop (length h - nat limit) h\<rparr>
             else s\<lparr>history := h\<rparr>)"

definition push ::
  "('e, 'r) stream_config \<Rightarrow> 'e \<Rightarrow> ('e, 'r) event_stream \<Rightarrow> ('e, 'r) event_stream" where
  "push cfg event s =
     (if is_done s then s
      else (let s1 = pushHistory cfg event s;
                s2 = (if isComplete cfg event
                      then resolveFinalResult (extractResult cfg event) (s1\<lparr>is_done := True\<rparr>)
                      else s1)
            in case waiting s2 of
                 waiter # rest \<Rightarrow>
                   s2\<lparr>waiting := rest, notified := notified s2 @ [(waiter, Value event)]\<rparr>
               | [] \<Rightarrow> s2\<lparr>queue := queue s2 @ [event]\<rparr>))"

text \<open>\<open>end(result?)\<close>; an absent result is \<open>None\<close>.\<close>

definition end_stream :: "'r option \<Rightarrow> ('e, 'r) event_stream \<Rightarrow> ('e, 'r) event_stream" where
  "end_stream result s =
     (let s1 = s\<lparr>is_done := True\<rparr>;
          s2 = (case result of Some r \<Rightarrow> resolveFinalResult r s1 | None \<Rightarrow> s1)
      in s2\<lparr>waiting := [], notified := notified s2 @ map (\<lambda>waiter. (waiter, Done)) (waiting s2)\<rparr>)"

text \<open>
  One turn of the loop of the asynchronous iterator, for the consumer \<open>c\<close>: it yields
  the head of the queue, or returns when the stream is done, or leaves its callback in
  \<open>waiting\<close> and suspends.
\<close>

datatype 'e turn = Yielded 'e | Returned | Suspended

definition pull :: "nat \<Rightarrow> ('e, 'r) event_stream \<Rightarrow> ('e, 'r) event_stream \<times> 'e turn" where
  "pull c s =
     (case queue s of
        event # rest \<Rightarrow> (s\<lparr>queue := rest\<rparr>, Yielded event)
      | [] \<Rightarrow> if is_done s then (s, Returned)
              else (s\<lparr>waiting := waiting s @ [c]\<rparr>, Suspended))"

text \<open>
  A consumer that keeps iterating for as long as the iterator yields: the events it
  receives, and whether the iterator returned or suspended.
\<close>

function iterate :: "nat \<Rightarrow> ('e, 'r) event_stream \<Rightarrow> ('e, 'r) event_stream \<times> 'e list \<times> 'e turn" where
  "iterate c s =
     (case pull c s of
        (s', Yielded event) \<Rightarrow>
          (case iterate c s' of (s'', events, fin) \<Rightarrow> (s'', event # events, fin))
      | (s', t) \<Rightarrow> (s', [], t))"
  by pat_completeness auto
termination
  by (relation "measure (\<lambda>(c, s). length (queue s))")
    (auto simp: pull_def split: list.splits if_splits)

text \<open>What a producer and the consumers can do to a stream, and a sequence of such steps.\<close>

datatype ('e, 'r) stream_op = Push 'e | End "'r option" | Pull nat

fun apply_op ::
  "('e, 'r) stream_config \<Rightarrow> ('e, 'r) stream_op \<Rightarrow> ('e, 'r) event_stream \<Rightarrow> ('e, 'r) event_stream"
where
  "apply_op cfg (Push event) s = push cfg event s"
| "apply_op cfg (End result) s = end_stream result s"
| "apply_op cfg (Pull c) s = fst (pull c s)"

fun run_ops ::
  "('e, 'r) stream_config \<Rightarrow> ('e, 'r) stream_op list \<Rightarrow> ('e, 'r) event_stream
     \<Rightarrow> ('e, 'r) event_stream"
where
  "run_ops cfg [] s = s"
| "run_ops cfg (x # xs) s = run_ops cfg xs (apply_op cfg x s)"

fun ends_with_result :: "('e, 'r) stream_op \<Rightarrow> bool" where
  "ends_with_result (End (Some r)) = True"
| "ends_with_result x = False"

fun pushes_complete :: "('e, 'r) stream_config \<Rightarrow> ('e, 'r) stream_op \<Rightarrow> bool" where
  "pushes_complete cfg (Push event) = isComplete cfg event"
| "pushes_complete cfg x = False"

section \<open>Provider registry and streaming entry point\<close>

datatype entry_error =
    InvalidModel string
  | InvalidContext
  | InvalidApiProvider string
  | NoApiProviderRegistered string
  | MismatchedApi string string
  | ProviderFailure string

fun error_message :: "entry_error \<Rightarrow> string" where
  "error_message (InvalidModel msg) = msg"
| "error_message InvalidContext = ''Invalid context''"
| "error_message (InvalidApiProvider msg) = msg"
| "error_message (NoApiProviderRegistered a) = ''No API provider registered for api: '' @ a"
| "error_message (MismatchedApi a expected) = ''Mismatched api: '' @ a @ '' expected '' @ expected"
| "error_message (ProviderFailure msg) = msg"

text \<open>
  A stream function takes the model and the rest of its arguments (context and options,
  of a type \<open>'c\<close>) and returns an event stream (of a type \<open>'s\<close>) or throws.
  \<open>wrapStream\<close> and \<open>wrapStreamSimple\<close> make the same check of the model's
  protocol and are one function here.
\<close>

type_synonym ('c, 's) stream_function = "target_model \<Rightarrow> 'c \<Rightarrow> entry_error + 's"

record ('c, 's) api_provider =
  providerApi :: string
  providerStream :: "('c, 's) stream_function"
  providerStreamSimple :: "('c, 's) stream_function"

record provider_metadata =
  sourceId :: "string option"
  version :: "string option"
  enabled :: bool
  registeredAt :: int
  updatedAt :: int

record ('c, 's) registered_provider =
  entryProvider :: "('c, 's) api_provider"
  entryMetadata :: provider_metadata

record register_options =
  optSourceId :: "string option"
  optVersion :: "string option"
  optEnabled :: "bool option"

text \<open>
  The registry is a \<open>Map\<close>, which keeps its keys in the order of their first insertion:
  a list of pairs with distinct keys.
\<close>

type_synonym ('c, 's) registry = "(string \<times> ('c, 's) registered_provider) list"

fun map_set :: "string \<Rightarrow> 'v \<Rightarrow> (string \<times> 'v) list \<Rightarrow> (string \<times> 'v) list" where
  "map_set k v [] = [(k, v)]"
| "map_set k v ((k', v') # rest) =
     (if k' = k then (k, v) # rest else (k', v') # map_set k v rest)"

definition wrapStream :: "string \<Rightarrow> ('c, 's) stream_function \<Rightarrow> ('c, 's) stream_function" where
  "wrapStream a f =
     (\<lambda>m c. if modelApi m \<noteq> a then Inl (MismatchedApi (modelApi m) a) else f m c)"

definition register ::
  "('c, 's) api_provider \<Rightarrow> register_options \<Rightarrow> int \<Rightarrow> ('c, 's) registry
     \<Rightarrow> entry_error + ('c, 's) registry" where
  "register p options now reg =
     (if providerApi p = []
      then Inl (InvalidApiProvider ''Invalid API provider: api must be a non-empty string'')
      else (let existing = map_of reg (providerApi p);
                metadata =
                  \<lparr>sourceId = optSourceId options, version = optVersion options,
                   enabled = (case optEnabled options of Some b \<Rightarrow> b | None \<Rightarrow> True),
                   registeredAt = (case existing of
                                     Some e \<Rightarrow> registeredAt (entryMetadata e)
                                   | None \<Rightarrow> now),
                   updatedAt = now\<rparr>
            in Inr (map_set (providerApi p)
                      \<lparr>entryProvider =
                         \<lparr>providerApi = providerApi p,
                          providerStream = wrapStream (providerApi p) (providerStream p),
                          providerStreamSimple =
                            wrapStream (providerApi p) (providerStreamSimple p)\<rparr>,
                       entryMetadata = metadata\<rparr>
                      reg)))"

definition get :: "string \<Rightarrow> ('c, 's) registry \<Rightarrow> ('c, 's) api_provider option" where
  "get a reg =
     (case map_of reg a of
        None \<Rightarrow> None
      | Some entry \<Rightarrow> if \<not> enabled (entryMetadata entry) then None
                       else Some (entryProvider entry))"

definition getWithMetadata ::
  "string \<Rightarrow> ('c, 's) registry \<Rightarrow> ('c, 's) registered_provider option" where
  "getWithMetadata a reg = map_of reg a"

definition list_providers :: "bool \<Rightarrow> ('c, 's) registry \<Rightarrow> ('c, 's) api_provider list" where
  "list_providers includeDisabled reg =
     map (\<lambda>kv. entryProvider (snd kv))
       (filter (\<lambda>kv. includeDisabled \<or> enabled (entryMetadata (snd kv))) reg)"

text \<open>
  \<open>enable\<close> and \<open>disable\<close> change the entry in place and return whether there was
  one; \<open>now\<close> is what \<open>Date.now()\<close> returns.
\<close>

definition enable :: "string \<Rightarrow> int \<Rightarrow> ('c, 's) registry \<Rightarrow> ('c, 's) registry \<times> bool" where
  "enable a now reg =
     (case map_of reg a of
        None \<Rightarrow> (reg, False)
      | Some entry \<Rightarrow>
          (map_set a (entry\<lparr>entryMetadata :=
                              (entryMetadata entry)\<lparr>enabled := True, updatedAt := now\<rparr>\<rparr>) reg,
           True))"

definition disable :: "string \<Rightarrow> int \<Rightarrow> ('c, 's) registry \<Rightarrow> ('c, 's) registry \<times> bool" where
  "disable a now reg =
     (case map_of reg a of
        None \<Rightarrow> (reg, False)
      | Some entry \<Rightarrow>
          (map_set a (entry\<lparr>entryMetadata :=
                              (entryMetadata entry)\<lparr>enabled := False, updatedAt := now\<rparr>\<rparr>) reg,
           True))"

definition unregisterBySource :: "string \<Rightarrow> ('c, 's) registry \<Rightarrow> ('c, 's) registry" where
  "unregisterBySource src reg =
     filter (\<lambda>kv. sourceId (entryMetadata (snd kv)) \<noteq> Some src) reg"

definition clear :: "('c, 's) registry \<Rightarrow> ('c, 's) registry" where
  "clear reg = []"

text \<open>The streaming entry points, on a given state of the registry.\<close>

definition validateModel :: "target_model \<Rightarrow> entry_error option" where
  "validateModel m =
     (if modelApi m = [] then Some (InvalidModel ''Invalid model: api is required'')
      else if modelId m = [] then Some (InvalidModel ''Invalid model: id is required'')
      else if modelProvider m = []
        then Some (InvalidModel ''Invalid model: provider is required'')
      else None)"

definition resolveApiProvider ::
  "string \<Rightarrow> ('c, 's) registry \<Rightarrow> entry_error + ('c, 's) api_provider" where
  "resolveApiProvider a reg =
     (case get a reg of None \<Rightarrow> Inl (NoApiProviderRegistered a) | Some p \<Rightarrow> Inr p)"

text \<open>
  \<open>validateContext\<close> lives in \<open>types.ts\<close>, which is not among the sources, and is a
  parameter: true when the context passes.
\<close>

definition stream ::
  "('c \<Rightarrow> bool) \<Rightarrow> ('c, 's) registry \<Rightarrow> target_model \<Rightarrow> 'c \<Rightarrow> entry_error + 's" where
  "stream validateContext reg m c =
     (case validateModel m of
        Some e \<Rightarrow> Inl e
      | None \<Rightarrow>
          if \<not> validateContext c then Inl InvalidContext
          else (case resolveApiProvider (modelApi m) reg of
                  Inl e \<Rightarrow> Inl e
                | Inr p \<Rightarrow> providerStream p m c))"

definition streamSimple ::
  "('c \<Rightarrow> bool) \<Rightarrow> ('c, 's) registry \<Rightarrow> target_model \<Rightarrow> 'c \<Rightarrow> entry_error + 's" where
  "streamSimple validateContext reg m c =
     (case validateModel m of
        Some e \<Rightarrow> Inl e
      | None \<Rightarrow>
          if \<not> validateContext c then Inl InvalidContext
          else (case resolveApiProvider (modelApi m) reg of
                  Inl e \<Rightarrow> Inl e
                | Inr p \<Rightarrow> providerStreamSimple p m c))"

text \<open>
  What every registry built by \<open>register\<close>, \<open>enable\<close>, \<open>disable\<close>,
  \<open>unregisterBySource\<close> and \<open>clear\<close> satisfies: the keys are distinct and each entry
  sits under the protocol of its provider.
\<close>

definition registry_ok :: "('c, 's) registry \<Rightarrow> bool" where
  "registry_ok reg =
     (distinct (map fst reg) \<and> (\<forall>kv\<in>set reg. providerApi (entryProvider (snd kv)) = fst kv))"

text \<open>A provider for the examples: its stream functions return the model's id.\<close>

definition echo_provider :: "string \<Rightarrow> (unit, string) api_provider" where
  "echo_provider a =
     \<lparr>providerApi = a, providerStream = (\<lambda>m c. Inr (modelId m)),
      providerStreamSimple = (\<lambda>m c. Inr (modelId m))\<rparr>"

definition no_options :: register_options where
  "no_options = \<lparr>optSourceId = None, optVersion = None, optEnabled = None\<rparr>"

chapter \<open>Verified properties\<close>

section \<open>The matcher decides the language\<close>

lemma nullable_iff: "nullable r \<longleftrightarrow> [] \<in> lang r"
  by (induction r) (auto simp: lang_conc_def intro: lang_star.empty)

lemma lang_seq: "lang (seq r s) = lang_conc (lang r) (lang s)"
  by (cases r) (auto simp: lang_conc_def)

lemma lang_alt: "lang (alt r s) = lang r \<union> lang s"
  by (cases r; cases s) auto

lemma lang_star_split:
  "x \<in> lang_star A \<Longrightarrow> x = c # w \<Longrightarrow>
     \<exists>u v. w = u @ v \<and> c # u \<in> A \<and> v \<in> lang_star A"
proof (induction arbitrary: w rule: lang_star.induct)
  case empty
  then show ?case by simp
next
  case (more u v)
  show ?case
  proof (cases u)
    case Nil
    with more show ?thesis by simp
  next
    case (Cons x u')
    with more.prems more.hyps(1) have "w = u' @ v" and "c # u' \<in> A" by simp_all
    with more.hyps(2) show ?thesis by blast
  qed
qed

lemma lang_star_cons:
  "c # w \<in> lang_star A \<longleftrightarrow> (\<exists>u v. w = u @ v \<and> c # u \<in> A \<and> v \<in> lang_star A)"
proof
  assume "c # w \<in> lang_star A"
  then show "\<exists>u v. w = u @ v \<and> c # u \<in> A \<and> v \<in> lang_star A"
    by (rule lang_star_split) simp
next
  assume "\<exists>u v. w = u @ v \<and> c # u \<in> A \<and> v \<in> lang_star A"
  then obtain u v where "w = u @ v" and "c # u \<in> A" and "v \<in> lang_star A" by blast
  then have "(c # u) @ v \<in> lang_star A" by (intro lang_star.more)
  with \<open>w = u @ v\<close> show "c # w \<in> lang_star A" by simp
qed

lemma lang_conc_cons:
  "c # w \<in> lang_conc A B \<longleftrightarrow>
     (\<exists>u v. w = u @ v \<and> c # u \<in> A \<and> v \<in> B) \<or> ([] \<in> A \<and> c # w \<in> B)"
proof
  assume "c # w \<in> lang_conc A B"
  then obtain u v where uv: "c # w = u @ v" "u \<in> A" "v \<in> B"
    by (auto simp: lang_conc_def)
  show "(\<exists>u v. w = u @ v \<and> c # u \<in> A \<and> v \<in> B) \<or> ([] \<in> A \<and> c # w \<in> B)"
  proof (cases u)
    case Nil
    with uv show ?thesis by simp
  next
    case (Cons x u')
    with uv have "w = u' @ v" and "c # u' \<in> A" by simp_all
    with uv(3) show ?thesis by blast
  qed
next
  assume "(\<exists>u v. w = u @ v \<and> c # u \<in> A \<and> v \<in> B) \<or> ([] \<in> A \<and> c # w \<in> B)"
  then show "c # w \<in> lang_conc A B"
  proof
    assume "\<exists>u v. w = u @ v \<and> c # u \<in> A \<and> v \<in> B"
    then obtain u v where "w = u @ v" "c # u \<in> A" "v \<in> B" by blast
    then have "c # w = (c # u) @ v \<and> c # u \<in> A \<and> v \<in> B" by simp
    then show ?thesis unfolding lang_conc_def by blast
  next
    assume "[] \<in> A \<and> c # w \<in> B"
    then have "c # w = [] @ (c # w) \<and> [] \<in> A \<and> c # w \<in> B" by simp
    then show ?thesis unfolding lang_conc_def by blast
  qed
qed

lemma lang_deriv: "lang (deriv c r) = {w. c # w \<in> lang r}"
proof (induction r)
  case (Seq r s)
  have "w \<in> lang (deriv c (Seq r s)) \<longleftrightarrow> c # w \<in> lang (Seq r s)" for w
    using Seq by (auto simp: lang_seq lang_alt nullable_iff lang_conc_cons)
      (auto simp: lang_conc_def)
  then show ?case by blast
next
  case (Star r)
  have "w \<in> lang (deriv c (Star r)) \<longleftrightarrow> c # w \<in> lang (Star r)" for w
    using Star by (auto simp: lang_seq lang_star_cons) (auto simp: lang_conc_def)
  then show ?case by blast
qed (auto simp: lang_alt)

lemma match_prefix_nil: "match_prefix r [] = nullable r"
  by (cases r) simp_all

lemma match_prefix_cons:
  "match_prefix r (c # cs) = (nullable r \<or> match_prefix (deriv c r) cs)"
  by (cases r) simp_all

text \<open>The matcher decides whether a prefix of the input is in the language.\<close>

lemma match_prefix_iff: "match_prefix r s \<longleftrightarrow> (\<exists>p q. s = p @ q \<and> p \<in> lang r)"
proof (induction s arbitrary: r)
  case Nil
  show ?case by (simp add: match_prefix_nil nullable_iff)
next
  case (Cons c cs)
  have "(\<exists>p q. c # cs = p @ q \<and> p \<in> lang r) \<longleftrightarrow>
          [] \<in> lang r \<or> (\<exists>p q. cs = p @ q \<and> c # p \<in> lang r)"
    by (auto simp: Cons_eq_append_conv)
  then show ?case
    by (simp add: match_prefix_cons Cons.IH lang_deriv nullable_iff)
qed

text \<open>\<open>test\<close> decides whether some substring of the input is in the language.\<close>

lemma rx_test_iff: "rx_test r s \<longleftrightarrow> (\<exists>p w q. s = p @ w @ q \<and> w \<in> lang r)"
proof (induction s)
  case Nil
  show ?case by (simp add: nullable_iff)
next
  case (Cons c cs)
  have "(\<exists>p w q. c # cs = p @ w @ q \<and> w \<in> lang r) \<longleftrightarrow>
          (\<exists>w q. c # cs = w @ q \<and> w \<in> lang r) \<or> (\<exists>p w q. cs = p @ w @ q \<and> w \<in> lang r)"
    (is "?L \<longleftrightarrow> ?A \<or> ?B")
  proof
    assume ?L
    then obtain p w q where pwq: "c # cs = p @ w @ q" "w \<in> lang r" by blast
    show "?A \<or> ?B"
    proof (cases p)
      case Nil
      with pwq show ?thesis by auto
    next
      case (Cons x p')
      with pwq have "cs = p' @ w @ q" by simp
      with pwq(2) show ?thesis by blast
    qed
  next
    assume "?A \<or> ?B"
    then show ?L
    proof
      assume ?A
      then obtain w q where "c # cs = [] @ w @ q" "w \<in> lang r" by auto
      then show ?L by blast
    next
      assume ?B
      then obtain p w q where "cs = p @ w @ q" "w \<in> lang r" by blast
      then have "c # cs = (c # p) @ w @ q" by simp
      with \<open>w \<in> lang r\<close> show ?L by blast
    qed
  qed
  then have split: "(?A \<or> ?B) = ?L" by (rule sym)
  have step: "rx_test r (c # cs) = (match_prefix r (c # cs) \<or> rx_test r cs)"
    by simp
  have "rx_test r (c # cs) = (?A \<or> ?B)"
    unfolding step match_prefix_iff [of r "c # cs"] Cons.IH by (rule refl)
  then show ?case using split by (rule trans)
qed

section \<open>Context overflow detection: properties\<close>

lemma rx_test_suffix: "match_prefix r s \<Longrightarrow> rx_test r (p @ s)"
proof (induction p)
  case Nil
  then show ?case by (cases s) (auto elim: match_prefix.elims)
next
  case (Cons c p)
  then show ?case by simp
qed

lemma overflow_table_entry:
  "(r, sg) \<in> set OVERFLOW_PATTERN_CONFIG \<Longrightarrow> rx_test r e \<Longrightarrow> matches_overflow_table e"
  unfolding matches_overflow_table_def list_ex_iff by force

lemma exceeds_window_prefix:
  "match_prefix (lits ''exceeds the context window'') ''exceeds the context window''"
  by (simp add: lits_def)

lemma exceeds_window_matches: "matches_overflow_table ''input exceeds the context window''"
proof -
  have "rx_test (lits ''exceeds the context window'') (''input '' @ ''exceeds the context window'')"
    by (rule rx_test_suffix [OF exceeds_window_prefix])
  then have "rx_test (lits ''exceeds the context window'') ''input exceeds the context window''"
    by simp
  moreover have "(lits ''exceeds the context window'',
      ''Drop old turns and retry with summarized context.'') \<in> set OVERFLOW_PATTERN_CONFIG"
    unfolding OVERFLOW_PATTERN_CONFIG_def by simp
  ultimately show ?thesis by (rule overflow_table_entry [rotated])
qed

lemma empty_no_overflow: "\<not> matches_overflow_table []" "\<not> matches_status_form []"
  by (simp_all add: matches_overflow_table_def matches_status_form_def OVERFLOW_PATTERN_CONFIG_def
      status_code_rx_def lits_def rx_plus_def rx_opt_def)

text \<open>
  C1, as stated, at a context window of 0: the window is supplied, the stop reason is
  \<open>stop\<close> and the input tokens exceed the window, yet the function answers false,
  because the guard \<open>contextWindow && ...\<close> treats 0 like an absent window.
\<close>

theorem isContextOverflow_zero_window_counterexample:
  "stopReason (blank_message\<lparr>usage := (usage blank_message)\<lparr>input := 5\<rparr>\<rparr>) = Stop
   \<and> input (usage (blank_message\<lparr>usage := (usage blank_message)\<lparr>input := 5\<rparr>\<rparr>))
       + cacheRead (usage (blank_message\<lparr>usage := (usage blank_message)\<lparr>input := 5\<rparr>\<rparr>)) > 0
   \<and> \<not> isContextOverflow (blank_message\<lparr>usage := (usage blank_message)\<lparr>input := 5\<rparr>\<rparr>) (Some 0)"
  by (simp add: isContextOverflow_def blank_message_def)

lemma js_add_exact: "double_int (x + y) \<Longrightarrow> js_add x y = x + y"
  by (simp add: js_add_def)

lemma js_add_rounds: "js_add (2 ^ 53) 1 = 2 ^ 53" "js_add (2 ^ 53) 3 = 2 ^ 53 + 4"
  by (simp_all add: js_add_def double_int_def)

lemma isContextOverflow_cases:
  "isContextOverflow m w \<longleftrightarrow>
      (stopReason m = Error
         \<and> (\<exists>e. errorMessage m = Some e \<and> (matches_overflow_table e \<or> matches_status_form e)))
      \<or> (\<exists>c. w = Some c \<and> c \<noteq> 0 \<and> stopReason m = Stop
              \<and> js_add (input (usage m)) (cacheRead (usage m)) > c)"
proof (cases "errorMessage m")
  case None
  then show ?thesis by (cases w) (auto simp: isContextOverflow_def)
next
  case (Some e)
  then show ?thesis using empty_no_overflow
    by (cases w) (auto simp: isContextOverflow_def)
qed

text \<open>
  C1 (amended): let the token counts and the window be integers that a double holds.
  Then \<open>isContextOverflow m w\<close> is true exactly when (a) the stop reason is
  \<open>error\<close> and the error message is present and matches an entry of the overflow table
  or the bare status-code form, or (b) a non-zero context window is supplied, the stop
  reason is \<open>stop\<close> and \<open>usage.input + usage.cacheRead\<close>, the sum of the two
  doubles, exceeds it. That sum is the sum of the integers whenever this is at most
  \<open>2^53\<close> in size, and it is rounded beyond: \<open>2^53\<close> input tokens and 1 read from
  the cache do not exceed a window of \<open>2^53\<close>. The three examples hold: the error
  message "input exceeds the context window" gives true, 1200 input tokens against a
  window of 1000 give true, 500 against 1000 give false.
\<close>

theorem isContextOverflow_iff:
  "(double_int (input (usage m)) \<and> double_int (cacheRead (usage m))
      \<and> (\<forall>c. w = Some c \<longrightarrow> double_int c) \<longrightarrow>
      (isContextOverflow m w \<longleftrightarrow>
         (stopReason m = Error
            \<and> (\<exists>e. errorMessage m = Some e
                    \<and> (matches_overflow_table e \<or> matches_status_form e)))
         \<or> (\<exists>c. w = Some c \<and> c \<noteq> 0 \<and> stopReason m = Stop
                 \<and> js_add (input (usage m)) (cacheRead (usage m)) > c)))
   \<and> (double_int (input (usage m)) \<and> double_int (cacheRead (usage m))
        \<and> (\<forall>c. w = Some c \<longrightarrow> double_int c)
        \<and> double_int (input (usage m) + cacheRead (usage m)) \<longrightarrow>
        (isContextOverflow m w \<longleftrightarrow>
           (stopReason m = Error
              \<and> (\<exists>e. errorMessage m = Some e
                      \<and> (matches_overflow_table e \<or> matches_status_form e)))
           \<or> (\<exists>c. w = Some c \<and> c \<noteq> 0 \<and> stopReason m = Stop
                   \<and> input (usage m) + cacheRead (usage m) > c)))
   \<and> (stopReason g = Stop \<and> input (usage g) = 2 ^ 53 \<and> cacheRead (usage g) = 1 \<longrightarrow>
        \<not> isContextOverflow g (Some (2 ^ 53)))
   \<and> (stopReason a = Error \<and> errorMessage a = Some ''input exceeds the context window''
        \<longrightarrow> isContextOverflow a None)
   \<and> (stopReason b = Stop \<and> input (usage b) = 1200 \<and> cacheRead (usage b) = 0
        \<longrightarrow> isContextOverflow b (Some 1000))
   \<and> (stopReason d = Stop \<and> input (usage d) = 500 \<and> cacheRead (usage d) = 0
        \<longrightarrow> \<not> isContextOverflow d (Some 1000))"
proof (intro conjI impI)
  show "isContextOverflow m w \<longleftrightarrow>
         (stopReason m = Error
            \<and> (\<exists>e. errorMessage m = Some e
                    \<and> (matches_overflow_table e \<or> matches_status_form e)))
         \<or> (\<exists>c. w = Some c \<and> c \<noteq> 0 \<and> stopReason m = Stop
                 \<and> js_add (input (usage m)) (cacheRead (usage m)) > c)"
    by (rule isContextOverflow_cases)
next
  assume "double_int (input (usage m)) \<and> double_int (cacheRead (usage m))
        \<and> (\<forall>c. w = Some c \<longrightarrow> double_int c)
        \<and> double_int (input (usage m) + cacheRead (usage m))"
  then have "js_add (input (usage m)) (cacheRead (usage m)) =
      input (usage m) + cacheRead (usage m)"
    by (simp add: js_add_exact)
  with isContextOverflow_cases [of m w]
  show "isContextOverflow m w \<longleftrightarrow>
           (stopReason m = Error
              \<and> (\<exists>e. errorMessage m = Some e
                      \<and> (matches_overflow_table e \<or> matches_status_form e)))
           \<or> (\<exists>c. w = Some c \<and> c \<noteq> 0 \<and> stopReason m = Stop
                   \<and> input (usage m) + cacheRead (usage m) > c)"
    by simp
next
  assume "stopReason g = Stop \<and> input (usage g) = 2 ^ 53 \<and> cacheRead (usage g) = 1"
  then show "\<not> isContextOverflow g (Some (2 ^ 53))"
    by (simp add: isContextOverflow_cases js_add_def double_int_def)
next
  assume "stopReason a = Error \<and> errorMessage a = Some ''input exceeds the context window''"
  then show "isContextOverflow a None"
    using exceeds_window_matches by (simp add: isContextOverflow_cases)
next
  assume "stopReason b = Stop \<and> input (usage b) = 1200 \<and> cacheRead (usage b) = 0"
  then show "isContextOverflow b (Some 1000)"
    by (simp add: isContextOverflow_cases js_add_def double_int_def)
next
  assume "stopReason d = Stop \<and> input (usage d) = 500 \<and> cacheRead (usage d) = 0"
  then show "\<not> isContextOverflow d (Some 1000)"
    by (simp add: isContextOverflow_cases js_add_def double_int_def)
qed

theorem isContextOverflow_iff_witness:
  "isContextOverflow
     (blank_message\<lparr>stopReason := Error,
        errorMessage := Some ''input exceeds the context window''\<rparr>) None
   \<and> isContextOverflow (blank_message\<lparr>usage := (usage blank_message)\<lparr>input := 1200\<rparr>\<rparr>) (Some 1000)
   \<and> \<not> isContextOverflow (blank_message\<lparr>usage := (usage blank_message)\<lparr>input := 500\<rparr>\<rparr>) (Some 1000)
   \<and> \<not> isContextOverflow
         (blank_message\<lparr>usage := (usage blank_message)\<lparr>input := 2 ^ 53, cacheRead := 1\<rparr>\<rparr>)
         (Some (2 ^ 53))
   \<and> (isContextOverflow (blank_message\<lparr>usage := (usage blank_message)\<lparr>input := 7\<rparr>\<rparr>) (Some 6)
        \<longleftrightarrow> (7::int) + 0 > 6)"
proof -
  note t = isContextOverflow_iff [where
      a = "blank_message\<lparr>stopReason := Error,
        errorMessage := Some ''input exceeds the context window''\<rparr>"
      and b = "blank_message\<lparr>usage := (usage blank_message)\<lparr>input := 1200\<rparr>\<rparr>"
      and d = "blank_message\<lparr>usage := (usage blank_message)\<lparr>input := 500\<rparr>\<rparr>"
      and g = "blank_message\<lparr>usage := (usage blank_message)\<lparr>input := 2 ^ 53, cacheRead := 1\<rparr>\<rparr>"
      and m = "blank_message\<lparr>usage := (usage blank_message)\<lparr>input := 7\<rparr>\<rparr>"
      and w = "Some 6"]
  have "double_int 7" "double_int 0" "double_int 6" "double_int (7 + 0)"
    by (simp_all add: double_int_def)
  with t show ?thesis by (simp add: blank_message_def js_add_def double_int_def)
qed

section \<open>Retry executor: properties\<close>

declare retry_loop.simps [simp del]

lemma normalize_has_code: "\<exists>c. code_of (normalizeProviderError e) = Some c"
  by (cases e) (auto simp: Let_def)

lemma retry_loop_calls_ge: "n \<le> calls (retry_loop operation policy attempt lastError n ds)"
proof (induction operation policy attempt lastError n ds rule: retry_loop.induct)
  case (1 operation policy attempt lastError n ds)
  show ?case
  proof (cases "attempt < maxAttempts policy")
    case False
    then show ?thesis by (simp add: retry_loop.simps [of operation policy attempt])
  next
    case True
    show ?thesis
    proof (cases "operation n")
      case (Inr v)
      with True show ?thesis by (simp add: retry_loop.simps [of operation policy attempt])
    next
      case (Inl error)
      let ?retryable = "(case shouldRetry policy of Some f \<Rightarrow> f error (attempt + 1)
                         | None \<Rightarrow> defaultRetryable (normalizeProviderError error))"
      show ?thesis
      proof (cases "\<not> ?retryable \<or> attempt + 1 \<ge> maxAttempts policy")
        case stop: True
        with True Inl show ?thesis
          by (simp add: retry_loop.simps [of operation policy attempt] Let_def)
      next
        case go: False
        from "1.IH" [OF True Inl refl refl go]
        have "Suc n \<le> calls (retry_loop operation policy (attempt + 1) error (Suc n)
                 (ds @ [backoff policy (attempt + 1)]))" .
        with True Inl go show ?thesis
          by (simp add: retry_loop.simps [of operation policy attempt] Let_def)
      qed
    qed
  qed
qed

lemma rate_limit_normalized:
  "normalizeProviderError (JsError ''rate limit exceeded'') =
     SimpleOptionsProviderError ''rate limit exceeded'' rate_limit (JsError ''rate limit exceeded'')"
  by (simp add: toLowerCase_def toLowerCase_char_def capitals_def smalls_def Let_def)

lemma always_rate_limited_run:
  assumes "maxAttempts p = 3" "shouldRetry p = None"
  shows "executeWithRetry (\<lambda>k. Inl (JsError ''rate limit exceeded'')) p =
           \<lparr>outcome = Inl (SimpleOptionsProviderError ''rate limit exceeded'' rate_limit
                           (JsError ''rate limit exceeded'')),
            calls = 3, delays = [backoff p 1, backoff p 2]\<rparr>"
  unfolding executeWithRetry_def using assms
  by (simp add: retry_loop.simps [of _ p] rate_limit_normalized defaultRetryable_def
      del: normalizeProviderError.simps)

lemma first_failure_not_retryable:
  assumes "shouldRetry p = None" "1 \<le> maxAttempts p" "operation 0 = Inl e"
    and "\<not> defaultRetryable (normalizeProviderError e)"
  shows "executeWithRetry operation p =
           \<lparr>outcome = Inl (normalizeProviderError e), calls = 1, delays = []\<rparr>"
  unfolding executeWithRetry_def using assms
  by (simp add: retry_loop.simps [of operation p 0] del: normalizeProviderError.simps)

lemma retry_loop_invokes:
  assumes "attempt < maxAttempts policy"
  shows "Suc n \<le> calls (retry_loop operation policy attempt lastError n ds)"
proof (cases "operation n")
  case (Inr v)
  with assms show ?thesis by (simp add: retry_loop.simps [of operation policy attempt])
next
  case (Inl error)
  let ?retryable = "(case shouldRetry policy of Some f \<Rightarrow> f error (attempt + 1)
                     | None \<Rightarrow> defaultRetryable (normalizeProviderError error))"
  show ?thesis
  proof (cases "\<not> ?retryable \<or> attempt + 1 \<ge> maxAttempts policy")
    case True
    with assms Inl show ?thesis
      by (simp add: retry_loop.simps [of operation policy attempt] Let_def)
  next
    case False
    have "Suc n \<le> calls (retry_loop operation policy (attempt + 1) error (Suc n)
             (ds @ [backoff policy (attempt + 1)]))"
      by (rule retry_loop_calls_ge)
    with assms Inl False show ?thesis
      by (simp add: retry_loop.simps [of operation policy attempt] Let_def)
  qed
qed

lemma first_failure_retryable:
  assumes "shouldRetry p = None" "2 \<le> maxAttempts p" "operation 0 = Inl e"
    and "defaultRetryable (normalizeProviderError e)"
  shows "1 < calls (executeWithRetry operation p)"
proof -
  have "executeWithRetry operation p = retry_loop operation p 1 e (Suc 0) [backoff p 1]"
    unfolding executeWithRetry_def using assms
    by (simp add: retry_loop.simps [of operation p 0] del: normalizeProviderError.simps)
  moreover have "Suc (Suc 0) \<le> calls (retry_loop operation p 1 e (Suc 0) [backoff p 1])"
    using assms(2) by (intro retry_loop_invokes) simp
  ultimately show ?thesis by simp
qed

lemma forbidden_normalized:
  "normalizeProviderError (JsError ''403 Forbidden'') =
     SimpleOptionsProviderError ''403 Forbidden'' auth (JsError ''403 Forbidden'')"
  by (simp add: toLowerCase_def toLowerCase_char_def capitals_def smalls_def Let_def)

lemma timed_out_normalized:
  "normalizeProviderError (JsError ''Request timed out'') =
     SimpleOptionsProviderError ''Request timed out'' timeout (JsError ''Request timed out'')"
  by (simp add: toLowerCase_def toLowerCase_char_def capitals_def smalls_def Let_def)

lemma network_normalized:
  "normalizeProviderError (JsError ''network down'') =
     SimpleOptionsProviderError ''network down'' network (JsError ''network down'')"
  by (simp add: toLowerCase_def toLowerCase_char_def capitals_def smalls_def Let_def)

text \<open>
  The whole run without \<open>shouldRetry\<close>, from any state of the loop in which the
  attempt counter equals the number of invocations made: which invocations are followed by
  another, and what comes out.
\<close>

lemma retry_loop_trace:
  assumes "shouldRetry policy = None" and "attempt = int n" and "attempt < maxAttempts policy"
  shows "n < calls (retry_loop operation policy attempt lastError n ds)
    \<and> int (calls (retry_loop operation policy attempt lastError n ds)) \<le> maxAttempts policy
    \<and> (\<forall>k. n \<le> k \<and> k < calls (retry_loop operation policy attempt lastError n ds) \<longrightarrow>
          (Suc k < calls (retry_loop operation policy attempt lastError n ds) \<longleftrightarrow>
             (\<exists>e. operation k = Inl e \<and> defaultRetryable (normalizeProviderError e))
             \<and> int (Suc k) < maxAttempts policy))
    \<and> outcome (retry_loop operation policy attempt lastError n ds) =
          (case operation (calls (retry_loop operation policy attempt lastError n ds) - 1) of
             Inr v \<Rightarrow> Inr v
           | Inl e \<Rightarrow> Inl (normalizeProviderError e))"
  using assms
proof (induction operation policy attempt lastError n ds rule: retry_loop.induct)
  case (1 operation policy attempt lastError n ds)
  note none = "1.prems"(1) and att = "1.prems"(2) and lt = "1.prems"(3)
  show ?case
  proof (cases "operation n")
    case (Inr v)
    with lt have run: "retry_loop operation policy attempt lastError n ds =
        \<lparr>outcome = Inr v, calls = Suc n, delays = ds\<rparr>"
      by (simp add: retry_loop.simps [of operation policy attempt])
    have only: "k = n" if "n \<le> k \<and> k < Suc n" for k using that by simp
    from Inr att lt show ?thesis unfolding run by (auto dest!: only)
  next
    case (Inl error)
    let ?retryable = "defaultRetryable (normalizeProviderError error)"
    show ?thesis
    proof (cases "\<not> ?retryable \<or> attempt + 1 \<ge> maxAttempts policy")
      case True
      with lt Inl none have run: "retry_loop operation policy attempt lastError n ds =
          \<lparr>outcome = Inl (normalizeProviderError error), calls = Suc n, delays = ds\<rparr>"
        by (simp add: retry_loop.simps [of operation policy attempt] Let_def
            del: normalizeProviderError.simps)
      have only: "k = n" if "n \<le> k \<and> k < Suc n" for k using that by simp
      from Inl att lt True show ?thesis unfolding run by (auto dest!: only)
    next
      case False
      let ?next = "retry_loop operation policy (attempt + 1) error (Suc n)
                     (ds @ [backoff policy (attempt + 1)])"
      from False lt Inl none have run: "retry_loop operation policy attempt lastError n ds = ?next"
        by (simp add: retry_loop.simps [of operation policy attempt] Let_def
            del: normalizeProviderError.simps)
      have go: "\<not> (\<not> (case shouldRetry policy of None \<Rightarrow> ?retryable
                              | Some f \<Rightarrow> f error (attempt + 1))
                   \<or> maxAttempts policy \<le> attempt + 1)"
        using False none by simp
      from False att have att': "attempt + 1 = int (Suc n)" and lt': "attempt + 1 < maxAttempts policy"
        by simp_all
      note IH = "1.IH" [OF lt Inl refl refl go none att' lt']
      from IH have more: "Suc n < calls ?next" by blast
      have here: "(\<exists>e. operation n = Inl e \<and> defaultRetryable (normalizeProviderError e))
             \<and> int (Suc n) < maxAttempts policy"
        using Inl False att by auto
      have "Suc k < calls ?next \<longleftrightarrow>
             (\<exists>e. operation k = Inl e \<and> defaultRetryable (normalizeProviderError e))
             \<and> int (Suc k) < maxAttempts policy"
        if "n \<le> k" "k < calls ?next" for k
      proof (cases "k = n")
        case True
        with more here show ?thesis by simp
      next
        case False
        with that have "Suc n \<le> k" by simp
        with that(2) IH show ?thesis by blast
      qed
      with IH more show ?thesis unfolding run by auto
    qed
  qed
qed

text \<open>
  C2: under the policy \<open>{maxAttempts: 3, baseDelayMs: 250}\<close> without \<open>shouldRetry\<close>,
  an operation that always throws \<open>Error("rate limit exceeded")\<close> is invoked exactly 3
  times and the error thrown in the end is the normalized \<open>SimpleOptionsProviderError\<close>
  with code \<open>rate_limit\<close>. Without \<open>shouldRetry\<close> and with at least one attempt
  allowed, the operation is invoked at least once and at most \<open>maxAttempts\<close> times, and
  at every attempt the decision is the same: invocation \<open>k\<close> is followed by another
  exactly when it threw an error that normalizes to \<open>rate_limit\<close>, \<open>timeout\<close> or
  \<open>network\<close> and attempts are left; the run ends with the value of the last invocation
  or with its error, normalized. So an error that normalizes to \<open>auth\<close>,
  \<open>validation\<close> or \<open>unknown\<close> is rethrown at once, at the first attempt as at any
  other.
\<close>

theorem executeWithRetry_default_retry:
  "(maxAttempts p = 3 \<and> baseDelayMs p = 250 \<and> shouldRetry p = None \<longrightarrow>
      calls (executeWithRetry (\<lambda>k. Inl (JsError ''rate limit exceeded'')) p) = 3
      \<and> outcome (executeWithRetry (\<lambda>k. Inl (JsError ''rate limit exceeded'')) p) =
           Inl (SimpleOptionsProviderError ''rate limit exceeded'' rate_limit
                  (JsError ''rate limit exceeded'')))
   \<and> (shouldRetry q = None \<and> 1 \<le> maxAttempts q \<longrightarrow>
        1 \<le> calls (executeWithRetry operation q)
        \<and> int (calls (executeWithRetry operation q)) \<le> maxAttempts q
        \<and> (\<forall>k < calls (executeWithRetry operation q).
              Suc k < calls (executeWithRetry operation q) \<longleftrightarrow>
                (\<exists>e. operation k = Inl e
                   \<and> code_of (normalizeProviderError e)
                       \<in> {Some rate_limit, Some timeout, Some network})
                \<and> int (Suc k) < maxAttempts q)
        \<and> outcome (executeWithRetry operation q) =
            (case operation (calls (executeWithRetry operation q) - 1) of
               Inr v \<Rightarrow> Inr v
             | Inl e \<Rightarrow> Inl (normalizeProviderError e)))
   \<and> (shouldRetry q' = None \<and> 1 \<le> maxAttempts q' \<and> operation' 0 = Inl e'
        \<and> code_of (normalizeProviderError e') \<in> {Some auth, Some validation, Some unknown} \<longrightarrow>
        calls (executeWithRetry operation' q') = 1
        \<and> outcome (executeWithRetry operation' q') = Inl (normalizeProviderError e'))"
proof (intro conjI impI)
  assume "maxAttempts p = 3 \<and> baseDelayMs p = 250 \<and> shouldRetry p = None"
  then have run: "executeWithRetry (\<lambda>k. Inl (JsError ''rate limit exceeded'')) p =
           \<lparr>outcome = Inl (SimpleOptionsProviderError ''rate limit exceeded'' rate_limit
                           (JsError ''rate limit exceeded'')),
            calls = 3, delays = [backoff p 1, backoff p 2]\<rparr>"
    by (intro always_rate_limited_run) simp_all
  show "calls (executeWithRetry (\<lambda>k. Inl (JsError ''rate limit exceeded'')) p) = 3"
    by (simp add: run)
  show "outcome (executeWithRetry (\<lambda>k. Inl (JsError ''rate limit exceeded'')) p) =
           Inl (SimpleOptionsProviderError ''rate limit exceeded'' rate_limit
                  (JsError ''rate limit exceeded''))"
    by (simp add: run)
next
  assume h: "shouldRetry q = None \<and> 1 \<le> maxAttempts q"
  let ?r = "executeWithRetry operation q"
  have t: "0 < calls ?r \<and> int (calls ?r) \<le> maxAttempts q
    \<and> (\<forall>k. 0 \<le> k \<and> k < calls ?r \<longrightarrow>
          (Suc k < calls ?r \<longleftrightarrow>
             (\<exists>e. operation k = Inl e \<and> defaultRetryable (normalizeProviderError e))
             \<and> int (Suc k) < maxAttempts q))
    \<and> outcome ?r = (case operation (calls ?r - 1) of
             Inr v \<Rightarrow> Inr v | Inl e \<Rightarrow> Inl (normalizeProviderError e))"
    unfolding executeWithRetry_def
    by (rule retry_loop_trace) (use h in simp_all)
  from t show "1 \<le> calls ?r" by simp
  from t show "int (calls ?r) \<le> maxAttempts q" by simp
  from t show "outcome ?r = (case operation (calls ?r - 1) of
             Inr v \<Rightarrow> Inr v | Inl e \<Rightarrow> Inl (normalizeProviderError e))" by simp
  from t show "\<forall>k < calls ?r.
              Suc k < calls ?r \<longleftrightarrow>
                (\<exists>e. operation k = Inl e
                   \<and> code_of (normalizeProviderError e)
                       \<in> {Some rate_limit, Some timeout, Some network})
                \<and> int (Suc k) < maxAttempts q"
    by (simp add: defaultRetryable_def)
next
  assume h: "shouldRetry q' = None \<and> 1 \<le> maxAttempts q' \<and> operation' 0 = Inl e'
        \<and> code_of (normalizeProviderError e') \<in> {Some auth, Some validation, Some unknown}"
  then have "\<not> defaultRetryable (normalizeProviderError e')"
    by (auto simp: defaultRetryable_def)
  with h have run: "executeWithRetry operation' q' =
           \<lparr>outcome = Inl (normalizeProviderError e'), calls = 1, delays = []\<rparr>"
    by (intro first_failure_not_retryable) simp_all
  show "calls (executeWithRetry operation' q') = 1" by (simp add: run)
  show "outcome (executeWithRetry operation' q') = Inl (normalizeProviderError e')"
    by (simp add: run)
qed

theorem executeWithRetry_default_retry_witness:
  "calls (executeWithRetry (\<lambda>k. Inl (JsError ''rate limit exceeded'') :: thrown + unit)
       \<lparr>maxAttempts = 3, baseDelayMs = 250, maxDelayMs = None, shouldRetry = None\<rparr>) = 3
   \<and> outcome (executeWithRetry (\<lambda>k. Inl (JsError ''rate limit exceeded'') :: thrown + unit)
       \<lparr>maxAttempts = 3, baseDelayMs = 250, maxDelayMs = None, shouldRetry = None\<rparr>) =
       Inl (SimpleOptionsProviderError ''rate limit exceeded'' rate_limit
              (JsError ''rate limit exceeded''))
   \<and> calls (executeWithRetry
         (\<lambda>k. if k = 0 then Inl (JsError ''network down'')
               else Inl (JsError ''403 Forbidden'') :: thrown + unit)
       \<lparr>maxAttempts = 3, baseDelayMs = 250, maxDelayMs = None, shouldRetry = None\<rparr>) = 2
   \<and> outcome (executeWithRetry
         (\<lambda>k. if k = 0 then Inl (JsError ''network down'')
               else Inl (JsError ''403 Forbidden'') :: thrown + unit)
       \<lparr>maxAttempts = 3, baseDelayMs = 250, maxDelayMs = None, shouldRetry = None\<rparr>) =
       Inl (SimpleOptionsProviderError ''403 Forbidden'' auth (JsError ''403 Forbidden''))
   \<and> calls (executeWithRetry (\<lambda>k. Inl (JsError ''403 Forbidden'') :: thrown + unit)
       \<lparr>maxAttempts = 3, baseDelayMs = 250, maxDelayMs = None, shouldRetry = None\<rparr>) = 1"
proof -
  let ?p = "\<lparr>maxAttempts = 3, baseDelayMs = 250, maxDelayMs = None, shouldRetry = None\<rparr>"
  let ?op = "\<lambda>k. if k = 0 then Inl (JsError ''network down'')
               else Inl (JsError ''403 Forbidden'') :: thrown + unit"
  let ?r = "executeWithRetry ?op ?p"
  note t = executeWithRetry_default_retry [of ?p ?p ?op ?p
      "\<lambda>k. Inl (JsError ''403 Forbidden'') :: thrown + unit" "JsError ''403 Forbidden''"]
  have hp: "maxAttempts ?p = 3 \<and> baseDelayMs ?p = 250 \<and> shouldRetry ?p = None" by simp
  have hq: "shouldRetry ?p = None \<and> 1 \<le> maxAttempts ?p" by simp
  have hr: "shouldRetry ?p = None \<and> 1 \<le> maxAttempts ?p
      \<and> (\<lambda>k. Inl (JsError ''403 Forbidden'') :: thrown + unit) 0 = Inl (JsError ''403 Forbidden'')
      \<and> code_of (normalizeProviderError (JsError ''403 Forbidden''))
          \<in> {Some auth, Some validation, Some unknown}"
    by (simp add: forbidden_normalized del: normalizeProviderError.simps)
  note first = t [THEN conjunct1, THEN mp, OF hp]
  note second = t [THEN conjunct2, THEN conjunct1, THEN mp, OF hq]
  note third = t [THEN conjunct2, THEN conjunct2, THEN mp, OF hr, THEN conjunct1]
  note pos = second [THEN conjunct1]
  note each = second [THEN conjunct2, THEN conjunct2, THEN conjunct1, rule_format]
  note last = second [THEN conjunct2, THEN conjunct2, THEN conjunct2]
  from pos have zero: "0 < calls ?r" by simp
  from each [OF zero] have one: "1 < calls ?r"
    by (simp add: network_normalized del: normalizeProviderError.simps)
  then have "Suc 0 < calls ?r" by simp
  from each [OF this] have "\<not> 2 < calls ?r"
    by (simp add: forbidden_normalized del: normalizeProviderError.simps)
  with one have two: "calls ?r = 2" by simp
  with last have "outcome ?r =
      Inl (SimpleOptionsProviderError ''403 Forbidden'' auth (JsError ''403 Forbidden''))"
    by (simp add: forbidden_normalized del: normalizeProviderError.simps)
  with first two third show ?thesis by blast
qed

text \<open>
  C3, as stated, at the only place where a cancellation signal meets the executor: the
  request of the Kimi adapter with a signal that is already aborted, and a \<open>fetch\<close>
  that rejects at once when it is. The operation is invoked once, not zero times.
\<close>

theorem executeWithRetry_aborted_counterexample:
  "calls (kimi_request
      (\<lambda>signal k. if signal = Some \<lparr>aborted = True\<rparr>
                   then Inl (JsError ''This operation was aborted'') else Inr ())
      (Some \<lparr>aborted = True\<rparr>)) = 1"
  by (simp add: kimi_request_def executeWithRetry_def retry_loop.simps Let_def)

text \<open>
  C3 (amended): the executor has no cancellation input and never short-circuits. For
  every operation and every policy that allows at least one attempt, the operation is
  invoked at least once; a policy that allows none invokes it zero times and throws the
  normalized unknown error. The call site that holds a signal passes it to the operation
  and allows one attempt, so with a signal, aborted or not, the operation is invoked
  exactly once.
\<close>

theorem executeWithRetry_no_short_circuit:
  "(1 \<le> maxAttempts p \<longrightarrow> 1 \<le> calls (executeWithRetry operation p))
   \<and> (maxAttempts p \<le> 0 \<longrightarrow>
        executeWithRetry operation p =
          \<lparr>outcome = Inl (SimpleOptionsProviderError ''Unknown provider error'' unknown Undefined),
           calls = 0, delays = []\<rparr>)
   \<and> calls (kimi_request fetch (Some signal)) = 1"
proof (intro conjI impI)
  assume "1 \<le> maxAttempts p"
  then have "Suc 0 \<le> calls (retry_loop operation p 0 Undefined 0 [])"
    by (intro retry_loop_invokes) simp
  then show "1 \<le> calls (executeWithRetry operation p)"
    by (simp add: executeWithRetry_def)
next
  assume "maxAttempts p \<le> 0"
  then show "executeWithRetry operation p =
          \<lparr>outcome = Inl (SimpleOptionsProviderError ''Unknown provider error'' unknown Undefined),
           calls = 0, delays = []\<rparr>"
    by (simp add: executeWithRetry_def retry_loop.simps [of operation p 0])
next
  show "calls (kimi_request fetch (Some signal)) = 1"
    by (cases "fetch (Some signal) 0")
      (simp_all add: kimi_request_def executeWithRetry_def retry_loop.simps Let_def
        del: normalizeProviderError.simps)
qed

theorem executeWithRetry_no_short_circuit_witness:
  "1 \<le> calls (executeWithRetry (\<lambda>k. Inr ())
       \<lparr>maxAttempts = 1, baseDelayMs = 250, maxDelayMs = None, shouldRetry = None\<rparr>)
   \<and> executeWithRetry (\<lambda>k. Inr ())
       \<lparr>maxAttempts = 0, baseDelayMs = 250, maxDelayMs = None, shouldRetry = None\<rparr> =
       \<lparr>outcome = Inl (SimpleOptionsProviderError ''Unknown provider error'' unknown Undefined),
        calls = 0, delays = []\<rparr>
   \<and> calls (kimi_request (\<lambda>signal k. Inr ()) (Some \<lparr>aborted = False\<rparr>)) = 1"
  using executeWithRetry_no_short_circuit [of
      "\<lparr>maxAttempts = 1, baseDelayMs = 250, maxDelayMs = None, shouldRetry = None\<rparr>"
      "\<lambda>k. Inr ()" "\<lambda>signal k. Inr ()" "\<lparr>aborted = False\<rparr>"]
    executeWithRetry_no_short_circuit [of
      "\<lparr>maxAttempts = 0, baseDelayMs = 250, maxDelayMs = None, shouldRetry = None\<rparr>"
      "\<lambda>k. Inr ()" "\<lambda>signal k. Inr ()" "\<lparr>aborted = False\<rparr>"]
  by simp

section \<open>Message transformation: properties\<close>

lemma push_synthetic_eq:
  "push_synthetic clock tcs existing result k =
     (result @ synthetic_for clock tcs existing k,
      k + length (synthetic_for clock tcs existing k))"
  by (induction tcs arbitrary: result k) simp_all

lemma synthetic_for_nil [simp]: "synthetic_for clock [] existing k = []"
  by simp

lemma appended_no_pending:
  "appended clock msgs [] existing k = appended clock msgs [] existing' k"
proof (induction msgs arbitrary: existing existing')
  case Nil
  show ?case by simp
next
  case (Cons msg msgs)
  show ?case
  proof (cases msg)
    case (ToolResultMessage r)
    then show ?thesis
      using Cons.IH [where existing = "insert (toolCallId r) existing"
          and existing' = "insert (toolCallId r) existing'"]
      by simp
  qed simp_all
qed

lemma insert_loop_eq:
  "insert_loop clock msgs result pending existing k =
     result @ appended clock msgs pending existing k"
proof (induction msgs arbitrary: result pending existing k)
  case Nil
  show ?case by simp
next
  case (Cons msg msgs)
  show ?case
  proof (cases msg)
    case (UserMessage u)
    then show ?thesis
      using appended_no_pending [where clock = clock and msgs = msgs and existing = existing
          and k = k and existing' = "{}"]
      by (cases "pending = []") (simp_all add: Cons.IH push_synthetic_eq)
  next
    case (ToolResultMessage r)
    then show ?thesis by (simp add: Cons.IH)
  next
    case (AssistantMessage a)
    show ?thesis
    proof (cases "pending = []")
      case True
      with AssistantMessage show ?thesis
        using appended_no_pending [where clock = clock and msgs = msgs and existing = existing
          and k = k and existing' = "{}"]
        by (simp add: Cons.IH)
    next
      case False
      with AssistantMessage show ?thesis
        by (simp add: Cons.IH push_synthetic_eq)
    qed
  qed
qed

lemma apply_eq_appended:
  "InsertSyntheticToolResults_apply clock msgs = appended clock msgs [] {} 0"
  by (simp add: InsertSyntheticToolResults_apply_def insert_loop_eq)

lemma synthetic_for_no_assistant: "AssistantMessage a \<notin> set (synthetic_for clock tcs existing k)"
  by (induction tcs arbitrary: k) simp_all

lemma synthetic_for_no_user: "UserMessage u \<notin> set (synthetic_for clock tcs existing k)"
  by (induction tcs arbitrary: k) simp_all

lemma appended_assistants:
  "AssistantMessage a \<in> set (appended clock msgs pending existing k) \<longleftrightarrow>
     AssistantMessage a \<in> set msgs \<and> stopReason a \<noteq> Error \<and> stopReason a \<noteq> Aborted"
proof (induction msgs arbitrary: pending existing k)
  case Nil
  show ?case by simp
next
  case (Cons msg msgs)
  show ?case
  proof (cases msg)
    case (AssistantMessage b)
    then show ?thesis
      by (auto simp: Cons.IH synthetic_for_no_assistant)
  qed (simp_all add: Cons.IH synthetic_for_no_assistant)
qed

lemma appended_users:
  "UserMessage u \<in> set (appended clock msgs pending existing k) \<longleftrightarrow> UserMessage u \<in> set msgs"
proof (induction msgs arbitrary: pending existing k)
  case Nil
  show ?case by simp
next
  case (Cons msg msgs)
  show ?case
    by (cases msg) (auto simp: Cons.IH synthetic_for_no_user)
qed

lemma appended_keeps_results:
  "ToolResultMessage r \<in> set msgs \<Longrightarrow>
     ToolResultMessage r \<in> set (appended clock msgs pending existing k)"
proof (induction msgs arbitrary: pending existing k)
  case Nil
  then show ?case by simp
next
  case (Cons msg msgs)
  then show ?case by (cases msg) auto
qed

lemma synthetic_for_quiet:
  "\<forall>tc\<in>set tcs. tcId tc \<in> existing \<Longrightarrow> synthetic_for clock tcs existing k = []"
  by (induction tcs arbitrary: k) simp_all

lemma appended_over_synthetic:
  "appended clock (synthetic_for ca tcs exa ka @ rest) pending existing k =
     synthetic_for ca tcs exa ka @
     appended clock rest pending
       (existing \<union> {tcId tc |tc. tc \<in> set tcs \<and> tcId tc \<notin> exa}) k"
proof (induction tcs arbitrary: existing ka)
  case Nil
  show ?case by simp
next
  case (Cons tc tcs)
  show ?case
  proof (cases "tcId tc \<in> exa")
    case True
    then have eq: "{tcId x |x. x \<in> set (tc # tcs) \<and> tcId x \<notin> exa} =
        {tcId x |x. x \<in> set tcs \<and> tcId x \<notin> exa}"
      by auto
    from True have "synthetic_for ca (tc # tcs) exa ka = synthetic_for ca tcs exa ka"
      by simp
    then show ?thesis
      unfolding eq using Cons.IH [where existing = existing and ka = ka] by simp
  next
    case False
    then have eq: "existing \<union> {tcId x |x. x \<in> set (tc # tcs) \<and> tcId x \<notin> exa} =
        insert (tcId tc) existing \<union> {tcId x |x. x \<in> set tcs \<and> tcId x \<notin> exa}"
      by auto
    from False have "synthetic_for ca (tc # tcs) exa ka =
        ToolResultMessage (syntheticToolResult ca ka tc) # synthetic_for ca tcs exa (Suc ka)"
      by simp
    then show ?thesis
      unfolding eq
      using Cons.IH [where existing = "insert (tcId tc) existing" and ka = "Suc ka"]
      by (simp add: syntheticToolResult_def)
  qed
qed

lemma appended_idem:
  assumes "(pb = pa \<and> exb = exa)
           \<or> (pa = [] \<and> (\<forall>tc\<in>set pb. tcId tc \<in> exb))"
  shows "appended cb (appended ca msgs pa exa ka) pb exb kb =
           appended ca msgs pa exa ka"
  using assms
proof (induction msgs arbitrary: pa exa ka pb exb kb)
  case Nil
  show ?case by simp
next
  case (Cons msg msgs)
  let ?syn = "synthetic_for ca pa exa ka"
  let ?E = "exb \<union> {tcId tc |tc. tc \<in> set pa \<and> tcId tc \<notin> exa}"
  have quiet: "\<forall>tc\<in>set pb. tcId tc \<in> ?E"
    using Cons.prems by auto
  then have nosyn: "synthetic_for cb pb ?E kb = []"
    by (rule synthetic_for_quiet)
  show ?case
  proof (cases msg)
    case (ToolResultMessage r)
    have "(pb = pa \<and> insert (toolCallId r) exb = insert (toolCallId r) exa)
           \<or> (pa = [] \<and> (\<forall>tc\<in>set pb. tcId tc \<in> insert (toolCallId r) exb))"
      using Cons.prems by auto
    from Cons.IH [OF this] ToolResultMessage show ?thesis by simp
  next
    case (UserMessage u)
    have "appended cb (appended ca msgs [] {} (ka + length ?syn)) [] {} kb =
            appended ca msgs [] {} (ka + length ?syn)"
      by (rule Cons.IH) simp
    with UserMessage nosyn show ?thesis
      by (simp add: appended_over_synthetic)
  next
    case (AssistantMessage a)
    show ?thesis
    proof (cases "stopReason a = Error \<or> stopReason a = Aborted")
      case True
      have "appended cb (appended ca msgs [] {} (ka + length ?syn)) pb ?E kb =
              appended ca msgs [] {} (ka + length ?syn)"
        by (rule Cons.IH) (use quiet in simp)
      with AssistantMessage True show ?thesis
        using appended_over_synthetic [where clock = cb and ca = ca and tcs = pa
            and exa = exa and ka = ka and pending = pb and existing = exb and k = kb
            and rest = "appended ca msgs [] {} (ka + length ?syn)"]
        by auto
    next
      case False
      have "appended cb
              (appended ca msgs (toolCalls_of (content a)) {} (ka + length ?syn))
              (toolCalls_of (content a)) {} kb =
            appended ca msgs (toolCalls_of (content a)) {} (ka + length ?syn)"
        by (rule Cons.IH) simp
      with AssistantMessage False nosyn show ?thesis
        by (simp add: appended_over_synthetic)
    qed
  qed
qed

lemma repair_idempotent:
  "InsertSyntheticToolResults_apply cb (InsertSyntheticToolResults_apply ca msgs) =
     InsertSyntheticToolResults_apply ca msgs"
  by (simp add: apply_eq_appended appended_idem)

lemma isSameModel_content [simp]: "isSameModel (a\<lparr>content := c\<rparr>) m = isSameModel a m"
  by (simp add: isSameModel_def)

lemma normalize_block_fixed:
  assumes "idempotent_normalizer m nz"
    and "normalize_block m nz a i b = (out, i')"
    and "b' \<in> set out"
    and "isSameModel a' m = isSameModel a m"
  shows "normalize_block m nz a' j b' = ([b'], j)"
proof (cases b)
  case (Text t)
  with assms show ?thesis by auto
next
  case (Thinking t sg)
  with assms show ?thesis by (auto split: if_splits)
next
  case (ToolCall tc)
  show ?thesis
  proof (cases nz)
    case None
    with ToolCall assms show ?thesis
      by (cases "thoughtSignature tc") (auto simp: Let_def split: if_splits)
  next
    case (Some nf)
    with assms(1) have idem: "\<And>t src src'. nf (nf t m src) m src' = nf t m src"
      by (simp add: idempotent_normalizer_def)
    have keep: "nf (tcId tc) m a = tcId tc \<Longrightarrow> nf (tcId tc) m a' = tcId tc"
      using idem [of "tcId tc" a a'] by simp
    from Some ToolCall assms(2-) keep idem [of "tcId tc" a a'] show ?thesis
      by (cases "thoughtSignature tc") (auto simp: Let_def split: if_splits)
  qed
qed

lemma normalize_content_members:
  "normalize_content m nz a i bs = (out, i') \<Longrightarrow> b' \<in> set out \<Longrightarrow>
     \<exists>b i1. b \<in> set bs \<and> b' \<in> set (fst (normalize_block m nz a i1 b))"
proof (induction bs arbitrary: i out i')
  case Nil
  then show ?case by simp
next
  case (Cons b bs)
  obtain o1 i1 where blk: "normalize_block m nz a i b = (o1, i1)" by force
  obtain o2 i2 where rest: "normalize_content m nz a i1 bs = (o2, i2)" by force
  from Cons.prems blk rest have "out = o1 @ o2" by simp
  with Cons.prems(2) consider "b' \<in> set o1" | "b' \<in> set o2" by auto
  then show ?case
  proof cases
    case 1
    with blk have "b' \<in> set (fst (normalize_block m nz a i b))" by simp
    then show ?thesis by auto
  next
    case 2
    from Cons.IH [OF rest 2] show ?thesis by auto
  qed
qed

lemma normalize_content_all_fixed:
  "(\<And>b j. b \<in> set bs \<Longrightarrow> normalize_block m nz a j b = ([b], j)) \<Longrightarrow>
     normalize_content m nz a j bs = (bs, j)"
  by (induction bs arbitrary: j) simp_all

lemma normalize_content_settled:
  assumes "idempotent_normalizer m nz"
    and "normalize_content m nz a i bs = (out, i')"
    and "isSameModel a' m = isSameModel a m"
  shows "normalize_content m nz a' j out = (out, j)"
proof (rule normalize_content_all_fixed)
  fix b' j
  assume "b' \<in> set out"
  from normalize_content_members [OF assms(2) this]
  obtain b i1 where "b \<in> set bs" and mem: "b' \<in> set (fst (normalize_block m nz a i1 b))"
    by blast
  obtain o1 i2 where blk: "normalize_block m nz a i1 b = (o1, i2)" by force
  with mem have "b' \<in> set o1" by simp
  from normalize_block_fixed [OF assms(1) blk this assms(3)]
  show "normalize_block m nz a' j b' = ([b'], j)" .
qed

lemma normalize_messages_assistants:
  "AssistantMessage a' \<in> set (normalize_messages m nz i msgs) \<Longrightarrow>
     \<exists>a i0. AssistantMessage a \<in> set msgs
        \<and> a' = a\<lparr>content := fst (normalize_content m nz a i0 (content a))\<rparr>"
proof (induction msgs arbitrary: i)
  case Nil
  then show ?case by simp
next
  case (Cons msg msgs)
  show ?case
  proof (cases msg)
    case (UserMessage u)
    with Cons show ?thesis by auto
  next
    case (ToolResultMessage r)
    with Cons.prems have "AssistantMessage a' \<in> set (normalize_messages m nz i msgs)"
      by (auto split: option.splits if_splits)
    from Cons.IH [OF this] show ?thesis by auto
  next
    case (AssistantMessage a)
    obtain c i1 where cont: "normalize_content m nz a i (content a) = (c, i1)" by force
    with AssistantMessage Cons.prems
    consider "a' = a\<lparr>content := c\<rparr>"
      | "AssistantMessage a' \<in> set (normalize_messages m nz i1 msgs)"
      by auto
    then show ?thesis
    proof cases
      case 1
      with cont have "a' = a\<lparr>content := fst (normalize_content m nz a i (content a))\<rparr>"
        by simp
      with AssistantMessage show ?thesis by auto
    next
      case 2
      from Cons.IH [OF this] show ?thesis by auto
    qed
  qed
qed

lemma normalize_messages_fixed:
  "(\<And>a j. AssistantMessage a \<in> set ys \<Longrightarrow>
       normalize_content m nz a j (content a) = (content a, j)) \<Longrightarrow>
     normalize_messages m nz Map.empty ys = ys"
proof (induction ys)
  case Nil
  show ?case by simp
next
  case (Cons msg ys)
  then have IH: "normalize_messages m nz Map.empty ys = ys" by simp
  show ?case
  proof (cases msg)
    case (AssistantMessage a)
    with Cons.prems [of a Map.empty]
    have "normalize_content m nz a Map.empty (content a) = (content a, Map.empty)" by simp
    with AssistantMessage IH show ?thesis by simp
  qed (simp_all add: IH)
qed

lemma normalize_after_repair:
  assumes "idempotent_normalizer m nz"
  shows "NormalizeAssistantContent_apply m nz
           (InsertSyntheticToolResults_apply clock (NormalizeAssistantContent_apply m nz msgs)) =
         InsertSyntheticToolResults_apply clock (NormalizeAssistantContent_apply m nz msgs)"
  unfolding NormalizeAssistantContent_apply_def
proof (rule normalize_messages_fixed)
  fix a' j
  assume "AssistantMessage a' \<in> set (InsertSyntheticToolResults_apply clock
            (normalize_messages m nz Map.empty msgs))"
  then have "AssistantMessage a' \<in> set (normalize_messages m nz Map.empty msgs)"
    by (simp add: apply_eq_appended appended_assistants)
  from normalize_messages_assistants [OF this]
  obtain a i0 where a': "a' = a\<lparr>content := fst (normalize_content m nz a i0 (content a))\<rparr>"
    by blast
  obtain c i1 where cont: "normalize_content m nz a i0 (content a) = (c, i1)" by force
  have "normalize_content m nz a' j c = (c, j)"
    by (rule normalize_content_settled [OF assms cont]) (simp add: a')
  with a' cont show "normalize_content m nz a' j (content a') = (content a', j)" by simp
qed

lemma transformMessages_Inr:
  "transformMessages v clock msgs m nz = Inr out \<longleftrightarrow>
     list_all v msgs \<and> list_all v (NormalizeAssistantContent_apply m nz msgs)
     \<and> list_all v out
     \<and> out = InsertSyntheticToolResults_apply clock (NormalizeAssistantContent_apply m nz msgs)"
  by (auto simp: transformMessages_def pipeline_transform_def)

lemma transformMessages_idempotent:
  assumes "idempotent_normalizer m nz"
    and "transformMessages v ca msgs m nz = Inr out"
  shows "transformMessages v cb out m nz = Inr out"
proof -
  from assms(2) [unfolded transformMessages_Inr] have both: "list_all v out
    \<and> out = InsertSyntheticToolResults_apply ca (NormalizeAssistantContent_apply m nz msgs)"
    by blast
  from both have valid: "list_all v out" by (rule conjunct1)
  from both have out:
    "out = InsertSyntheticToolResults_apply ca (NormalizeAssistantContent_apply m nz msgs)"
    by (rule conjunct2)
  have one: "NormalizeAssistantContent_apply m nz out = out"
    unfolding out by (rule normalize_after_repair [OF assms(1)])
  have two: "InsertSyntheticToolResults_apply cb out = out"
    unfolding out by (rule repair_idempotent)
  show ?thesis
    by (simp add: transformMessages_Inr one two valid)
qed

lemmas example_defs = other_model_def call_def assistant_calling_def result_for_def
  no_result_for_def continue_def blank_message_def norm_prefix_def
  transformMessages_def pipeline_transform_def NormalizeAssistantContent_apply_def
  InsertSyntheticToolResults_apply_def isSameModel_def syntheticToolResult_def Let_def

lemma length_normalize_messages [simp]:
  "length (normalize_messages m nz i msgs) = length msgs"
proof (induction msgs arbitrary: i)
  case Nil
  show ?case by simp
next
  case (Cons msg msgs)
  show ?case by (cases msg) (simp_all add: Cons.IH split: prod.splits)
qed

lemma prefix_block_keeps:
  "normalize_block m (Some norm_prefix) a i b = (out, i') \<Longrightarrow>
     i t = Some (''norm-'' @ t) \<Longrightarrow> i' t = Some (''norm-'' @ t)"
  by (cases b) (auto simp: Let_def norm_prefix_def split: if_splits)

lemma prefix_content_keeps:
  "normalize_content m (Some norm_prefix) a i bs = (out, i') \<Longrightarrow>
     i t = Some (''norm-'' @ t) \<Longrightarrow> i' t = Some (''norm-'' @ t)"
proof (induction bs arbitrary: i out i')
  case Nil
  then show ?case by simp
next
  case (Cons b bs)
  obtain o1 i1 where blk: "normalize_block m (Some norm_prefix) a i b = (o1, i1)" by force
  obtain o2 i2 where rest: "normalize_content m (Some norm_prefix) a i1 bs = (o2, i2)" by force
  from Cons.prems(1) blk rest have "i' = i2" by simp
  with Cons.IH [where i = i1, OF rest prefix_block_keeps [where i = i and t = t, OF blk Cons.prems(2)]]
  show ?case by simp
qed

text \<open>What stage 1 makes of a tool call of a message from another model.\<close>

lemma prefix_content_rewrites:
  assumes "\<not> isSameModel a m" and "ToolCall tc \<in> set bs"
    and "normalize_content m (Some norm_prefix) a i bs = (out, i')"
  shows "ToolCall (tc\<lparr>tcId := ''norm-'' @ tcId tc,
             thoughtSignature := (if truthy (thoughtSignature tc) then None
                                  else thoughtSignature tc)\<rparr>) \<in> set out
         \<and> i' (tcId tc) = Some (''norm-'' @ tcId tc)"
  using assms(2,3)
proof (induction bs arbitrary: i out i')
  case Nil
  then show ?case by simp
next
  case (Cons b bs)
  obtain o1 i1 where blk: "normalize_block m (Some norm_prefix) a i b = (o1, i1)" by force
  obtain o2 i2 where rest: "normalize_content m (Some norm_prefix) a i1 bs = (o2, i2)" by force
  from Cons.prems(2) blk rest have out: "out = o1 @ o2" and i': "i' = i2" by simp_all
  from Cons.prems(1) consider "b = ToolCall tc" | "ToolCall tc \<in> set bs" by auto
  then show ?case
  proof cases
    case 1
    with blk assms(1)
    have "ToolCall (tc\<lparr>tcId := ''norm-'' @ tcId tc,
             thoughtSignature := (if truthy (thoughtSignature tc) then None
                                  else thoughtSignature tc)\<rparr>) \<in> set o1"
      and "i1 (tcId tc) = Some (''norm-'' @ tcId tc)"
      by (auto simp: Let_def norm_prefix_def)
    with prefix_content_keeps [where i = i1 and t = "tcId tc", OF rest] out i'
    show ?thesis by simp
  next
    case 2
    from Cons.IH [OF 2 rest] out i' show ?thesis by simp
  qed
qed

lemma prefix_result_rewritten:
  assumes "i t = Some (''norm-'' @ t)" and "j < length msgs"
    and "msgs ! j = ToolResultMessage r" and "toolCallId r = t"
  shows "normalize_messages m (Some norm_prefix) i msgs ! j =
           ToolResultMessage (r\<lparr>toolCallId := ''norm-'' @ t\<rparr>)"
  using assms(1-3)
proof (induction msgs arbitrary: i j)
  case Nil
  then show ?case by simp
next
  case (Cons msg msgs)
  show ?case
  proof (cases j)
    case 0
    with Cons.prems assms(4) show ?thesis by simp
  next
    case (Suc j')
    with Cons.prems have j': "j' < length msgs" and at: "msgs ! j' = ToolResultMessage r"
      by simp_all
    show ?thesis
    proof (cases msg)
      case (UserMessage u)
      with Suc Cons.IH [where i = i and j = j', OF Cons.prems(1) j' at] show ?thesis by simp
    next
      case (ToolResultMessage r')
      with Suc Cons.IH [where i = i and j = j', OF Cons.prems(1) j' at] show ?thesis by simp
    next
      case (AssistantMessage a)
      obtain c i1 where cont: "normalize_content m (Some norm_prefix) a i (content a) = (c, i1)"
        by force
      from prefix_content_keeps [where i = i and t = t, OF cont Cons.prems(1)]
      have "i1 t = Some (''norm-'' @ t)" .
      from Cons.IH [where i = i1 and j = j', OF this j' at] AssistantMessage Suc cont
      show ?thesis by simp
    qed
  qed
qed

lemma prefix_call_and_result:
  assumes "p < j" and "j < length msgs"
    and "msgs ! p = AssistantMessage a" and "\<not> isSameModel a m"
    and "ToolCall tc \<in> set (content a)"
    and "msgs ! j = ToolResultMessage r" and "toolCallId r = tcId tc"
  shows "\<exists>c. normalize_messages m (Some norm_prefix) i msgs ! p = AssistantMessage (a\<lparr>content := c\<rparr>)
           \<and> ToolCall (tc\<lparr>tcId := ''norm-'' @ tcId tc,
                 thoughtSignature := (if truthy (thoughtSignature tc) then None
                                      else thoughtSignature tc)\<rparr>) \<in> set c
           \<and> normalize_messages m (Some norm_prefix) i msgs ! j =
               ToolResultMessage (r\<lparr>toolCallId := ''norm-'' @ tcId tc\<rparr>)"
  using assms(1,2,3,6)
proof (induction msgs arbitrary: i p j)
  case Nil
  then show ?case by simp
next
  case (Cons msg msgs)
  from Cons.prems(1) obtain j' where j: "j = Suc j'" by (cases j) simp_all
  with Cons.prems have j': "j' < length msgs" and at: "msgs ! j' = ToolResultMessage r"
    by simp_all
  show ?case
  proof (cases p)
    case 0
    with Cons.prems have msg: "msg = AssistantMessage a" by simp
    obtain c i1 where cont: "normalize_content m (Some norm_prefix) a i (content a) = (c, i1)"
      by force
    from prefix_content_rewrites [OF assms(4,5) cont]
    have call: "ToolCall (tc\<lparr>tcId := ''norm-'' @ tcId tc,
                 thoughtSignature := (if truthy (thoughtSignature tc) then None
                                      else thoughtSignature tc)\<rparr>) \<in> set c"
      and i1: "i1 (tcId tc) = Some (''norm-'' @ tcId tc)"
      by simp_all
    from prefix_result_rewritten [where i = i1 and t = "tcId tc", OF i1 j' at assms(7)]
    have "normalize_messages m (Some norm_prefix) i1 msgs ! j' =
            ToolResultMessage (r\<lparr>toolCallId := ''norm-'' @ tcId tc\<rparr>)" .
    with 0 j msg cont
    have "normalize_messages m (Some norm_prefix) i (msg # msgs) ! p =
            AssistantMessage (a\<lparr>content := c\<rparr>)"
      and "normalize_messages m (Some norm_prefix) i (msg # msgs) ! j =
            ToolResultMessage (r\<lparr>toolCallId := ''norm-'' @ tcId tc\<rparr>)"
      by simp_all
    with call show ?thesis by blast
  next
    case (Suc p')
    with Cons.prems j have p': "p' < j'" and atp: "msgs ! p' = AssistantMessage a"
      by simp_all
    note IH = Cons.IH [OF p' j' atp at]
    show ?thesis
    proof (cases msg)
      case (UserMessage u)
      with IH [of i] Suc j show ?thesis by simp
    next
      case (ToolResultMessage r')
      with IH [of i] Suc j show ?thesis by simp
    next
      case (AssistantMessage a')
      obtain c i1 where "normalize_content m (Some norm_prefix) a' i (content a') = (c, i1)"
        by force
      with AssistantMessage IH [of i1] Suc j show ?thesis by simp
    qed
  qed
qed

lemma appended_subseq: "subseq (filter kept msgs) (appended clock msgs pending existing k)"
proof (induction msgs arbitrary: pending existing k)
  case Nil
  show ?case by simp
next
  case (Cons msg msgs)
  show ?case
  proof (cases msg)
    case (UserMessage u)
    have "subseq (UserMessage u # filter kept msgs)
            (UserMessage u # appended clock msgs [] {}
               (k + length (synthetic_for clock pending existing k)))"
      using Cons.IH by simp
    then show ?thesis using UserMessage by (simp add: list_emb_append2)
  next
    case (ToolResultMessage r)
    then show ?thesis using Cons.IH by simp
  next
    case (AssistantMessage a)
    show ?thesis
    proof (cases "stopReason a = Error \<or> stopReason a = Aborted")
      case True
      with AssistantMessage show ?thesis
        using Cons.IH [of "[]" "{}" "k + length (synthetic_for clock pending existing k)"]
        by (auto simp: list_emb_append2)
    next
      case False
      have "subseq (AssistantMessage a # filter kept msgs)
              (AssistantMessage a # appended clock msgs (toolCalls_of (content a)) {}
                 (k + length (synthetic_for clock pending existing k)))"
        using Cons.IH by simp
      with AssistantMessage False show ?thesis by (simp add: list_emb_append2)
    qed
  qed
qed

lemma subseq_two_nth:
  assumes "p < j" and "j < length xs"
  shows "subseq [xs ! p, xs ! j] xs"
proof -
  from assms have "xs = take p xs @ xs ! p # drop (Suc p) xs"
    by (simp add: id_take_nth_drop)
  moreover from assms have "drop (Suc p) xs =
      take (j - Suc p) (drop (Suc p) xs) @ xs ! j # drop (Suc (j - Suc p)) (drop (Suc p) xs)"
    using id_take_nth_drop [of "j - Suc p" "drop (Suc p) xs"] by simp
  ultimately obtain pre mid post where "xs = pre @ xs ! p # mid @ xs ! j # post"
    by metis
  moreover have "subseq [xs ! p, xs ! j] (pre @ xs ! p # mid @ xs ! j # post)"
    by (simp add: list_emb_append2)
  ultimately show ?thesis by simp
qed

lemma subseq_two_split:
  assumes "subseq [x, y] out"
  shows "\<exists>pre mid post. out = pre @ x # mid @ y # post"
proof -
  from list_emb_ConsD [OF assms]
  obtain us vs where out: "out = us @ x # vs" and rest: "subseq [y] vs" by blast
  from list_emb_ConsD [OF rest]
  obtain us' vs' where "vs = us' @ y # vs'" by blast
  with out show ?thesis by blast
qed

lemma repair_keeps_order:
  assumes "p < j" and "j < length msgs" and "kept (msgs ! p)" and "kept (msgs ! j)"
  shows "\<exists>pre mid post.
           InsertSyntheticToolResults_apply clock msgs = pre @ msgs ! p # mid @ msgs ! j # post"
proof -
  have "subseq [msgs ! p, msgs ! j] msgs" by (rule subseq_two_nth [OF assms(1,2)])
  then have "subseq (filter kept [msgs ! p, msgs ! j]) (filter kept msgs)"
    by (rule subseq_filter)
  with assms(3,4) have "subseq [msgs ! p, msgs ! j] (filter kept msgs)" by simp
  then have "subseq [msgs ! p, msgs ! j] (appended clock msgs [] {} 0)"
    using appended_subseq subseq_order.order_trans by blast
  then show ?thesis unfolding apply_eq_appended by (rule subseq_two_split)
qed

text \<open>
  C4, as stated, for an assistant message that stopped with \<open>aborted\<close>: the result's
  \<open>toolCallId\<close> becomes \<open>norm-orig\<close>, but the assistant message and with it the
  tool call are not in the output at all.
\<close>

theorem transformMessages_id_remap_counterexample:
  "transformMessages (\<lambda>msg. True) (\<lambda>k. 0)
      [assistant_calling ''gpt-test'' ''orig'' Aborted, result_for ''orig'']
      other_model (Some norm_prefix) = Inr [result_for ''norm-orig'']"
  by (simp add: example_defs)

lemma toolCalls_of_append: "toolCalls_of (xs @ ys) = toolCalls_of xs @ toolCalls_of ys"
  by (induction xs rule: toolCalls_of.induct) simp_all

lemma prefix_block_toolCalls:
  "\<not> isSameModel a m \<Longrightarrow> normalize_block m (Some norm_prefix) a i b = (out, i') \<Longrightarrow>
     toolCalls_of out = map renamed (toolCalls_of [b])"
  by (cases b) (auto simp: Let_def norm_prefix_def renamed_def split: if_splits)

lemma prefix_content_toolCalls:
  assumes "\<not> isSameModel a m"
    and "normalize_content m (Some norm_prefix) a i bs = (out, i')"
  shows "toolCalls_of out = map renamed (toolCalls_of bs)"
  using assms(2)
proof (induction bs arbitrary: i out i')
  case Nil
  then show ?case by simp
next
  case (Cons b bs)
  obtain o1 i1 where blk: "normalize_block m (Some norm_prefix) a i b = (o1, i1)" by force
  obtain o2 i2 where rest: "normalize_content m (Some norm_prefix) a i1 bs = (o2, i2)" by force
  from Cons.prems blk rest have out: "out = o1 @ o2" by simp
  have "toolCalls_of (b # bs) = toolCalls_of [b] @ toolCalls_of bs"
    using toolCalls_of_append [of "[b]" bs] by simp
  with prefix_block_toolCalls [OF assms(1) blk] Cons.IH [OF rest] out
  show ?case by (simp add: toolCalls_of_append)
qed

lemma prefix_assistant_toolCalls:
  assumes "p < length msgs" and "msgs ! p = AssistantMessage a" and "\<not> isSameModel a m"
  shows "\<exists>c. normalize_messages m (Some norm_prefix) i msgs ! p = AssistantMessage (a\<lparr>content := c\<rparr>)
           \<and> toolCalls_of c = map renamed (toolCalls_of (content a))"
  using assms(1,2)
proof (induction msgs arbitrary: i p)
  case Nil
  then show ?case by simp
next
  case (Cons msg msgs)
  show ?case
  proof (cases p)
    case 0
    with Cons.prems have msg: "msg = AssistantMessage a" by simp
    obtain c i1 where cont: "normalize_content m (Some norm_prefix) a i (content a) = (c, i1)"
      by force
    from prefix_content_toolCalls [OF assms(3) cont]
    have "toolCalls_of c = map renamed (toolCalls_of (content a))" .
    moreover from 0 msg cont
    have "normalize_messages m (Some norm_prefix) i (msg # msgs) ! p =
            AssistantMessage (a\<lparr>content := c\<rparr>)"
      by simp
    ultimately show ?thesis by blast
  next
    case (Suc p')
    with Cons.prems have p': "p' < length msgs" and atp: "msgs ! p' = AssistantMessage a"
      by simp_all
    note IH = Cons.IH [OF p' atp]
    show ?thesis
    proof (cases msg)
      case (UserMessage u)
      with IH [of i] Suc show ?thesis by simp
    next
      case (ToolResultMessage r')
      with IH [of i] Suc show ?thesis by simp
    next
      case (AssistantMessage a')
      obtain c i1 where "normalize_content m (Some norm_prefix) a' i (content a') = (c, i1)"
        by force
      with AssistantMessage IH [of i1] Suc show ?thesis by simp
    qed
  qed
qed

lemma synthetic_for_no_assistants:
  "filter is_assistant (synthetic_for clock tcs existing k) = []"
  by (induction tcs arbitrary: k) simp_all

lemma appended_assistant_list:
  "filter is_assistant (appended clock msgs pending existing k) =
     filter (\<lambda>x. is_assistant x \<and> kept x) msgs"
proof (induction msgs arbitrary: pending existing k)
  case Nil
  show ?case by simp
next
  case (Cons msg msgs)
  show ?case
    by (cases msg) (simp_all add: Cons.IH synthetic_for_no_assistants)
qed

text \<open>
  C4 (amended): let the list hold, at position \<open>p\<close>, an assistant message of a model
  other than the target with a tool call \<open>tc\<close>, and at a later position \<open>j\<close> a tool
  result whose \<open>toolCallId\<close> is the id of \<open>tc\<close> (\<open>orig\<close>, say), and let
  \<open>transformMessages\<close> with the normalizer \<open>id => "norm-" + id\<close> return. The first
  stage keeps the positions: at \<open>j\<close> it leaves the tool result with \<open>toolCallId\<close>
  \<open>norm-orig\<close>, and at \<open>p\<close> the assistant message with every one of its tool calls
  renamed (the id prefixed, a thought signature removed), none left under its old id. The
  output is what the repair stage makes of that list; its assistant messages are, in
  order, those of that list that stopped with neither \<open>error\<close> nor \<open>aborted\<close>. The
  renamed tool result is in the output. If the assistant message stopped with neither
  \<open>error\<close> nor \<open>aborted\<close>, the output holds it, with its tool calls renamed,
  followed later by the renamed tool result; if it stopped with \<open>error\<close> or
  \<open>aborted\<close>, it is not in the output, whatever its content, and so its tool call is
  not there.
\<close>

theorem transformMessages_id_remap:
  assumes "p < j" and "j < length msgs"
    and "msgs ! p = AssistantMessage a" and "\<not> isSameModel a m"
    and "ToolCall tc \<in> set (content a)"
    and "msgs ! j = ToolResultMessage r" and "toolCallId r = tcId tc"
    and "transformMessages v clock msgs m (Some norm_prefix) = Inr out"
  shows "length (NormalizeAssistantContent_apply m (Some norm_prefix) msgs) = length msgs
    \<and> NormalizeAssistantContent_apply m (Some norm_prefix) msgs ! j =
        ToolResultMessage (r\<lparr>toolCallId := ''norm-'' @ tcId tc\<rparr>)
    \<and> (\<exists>c. NormalizeAssistantContent_apply m (Some norm_prefix) msgs ! p =
               AssistantMessage (a\<lparr>content := c\<rparr>)
            \<and> toolCalls_of c = map renamed (toolCalls_of (content a)))
    \<and> out = InsertSyntheticToolResults_apply clock
               (NormalizeAssistantContent_apply m (Some norm_prefix) msgs)
    \<and> filter is_assistant out =
        filter (\<lambda>x. is_assistant x \<and> kept x)
          (NormalizeAssistantContent_apply m (Some norm_prefix) msgs)
    \<and> ToolResultMessage (r\<lparr>toolCallId := ''norm-'' @ tcId tc\<rparr>) \<in> set out
    \<and> (stopReason a \<noteq> Error \<and> stopReason a \<noteq> Aborted \<longrightarrow>
         (\<exists>c pre mid post.
            out = pre @ AssistantMessage (a\<lparr>content := c\<rparr>) # mid @
                    ToolResultMessage (r\<lparr>toolCallId := ''norm-'' @ tcId tc\<rparr>) # post
            \<and> toolCalls_of c = map renamed (toolCalls_of (content a))
            \<and> ToolCall (renamed tc) \<in> set c))
    \<and> (stopReason a = Error \<or> stopReason a = Aborted \<longrightarrow>
         (\<forall>c. AssistantMessage (a\<lparr>content := c\<rparr>) \<notin> set out))"
proof -
  let ?one = "NormalizeAssistantContent_apply m (Some norm_prefix) msgs"
  let ?r = "ToolResultMessage (r\<lparr>toolCallId := ''norm-'' @ tcId tc\<rparr>)"
  from assms(8) have out: "out = InsertSyntheticToolResults_apply clock ?one"
    unfolding transformMessages_Inr by blast
  have len: "length ?one = length msgs"
    by (simp add: NormalizeAssistantContent_apply_def)
  from prefix_call_and_result [OF assms(1-7), of Map.empty]
  obtain c where atp: "?one ! p = AssistantMessage (a\<lparr>content := c\<rparr>)"
    and call: "ToolCall (renamed tc) \<in> set c"
    and atj: "?one ! j = ?r"
    unfolding NormalizeAssistantContent_apply_def renamed_def by blast
  from assms(1,2) have "p < length msgs" by simp
  from prefix_assistant_toolCalls [OF this assms(3,4), of Map.empty]
  obtain c' where atp': "?one ! p = AssistantMessage (a\<lparr>content := c'\<rparr>)"
    and all': "toolCalls_of c' = map renamed (toolCalls_of (content a))"
    unfolding NormalizeAssistantContent_apply_def by blast
  from atp atp' have "a\<lparr>content := c\<rparr> = a\<lparr>content := c'\<rparr>" by simp
  then have "content (a\<lparr>content := c\<rparr>) = content (a\<lparr>content := c'\<rparr>)" by (rule arg_cong)
  then have "c = c'" by simp
  with all' have all: "toolCalls_of c = map renamed (toolCalls_of (content a))" by simp
  have third: "\<exists>c. ?one ! p = AssistantMessage (a\<lparr>content := c\<rparr>)
            \<and> toolCalls_of c = map renamed (toolCalls_of (content a))"
    using atp all by blast
  have lenj: "j < length ?one" using assms(2) len by simp
  then have "?r \<in> set ?one" using atj nth_mem by metis
  then have sixth: "?r \<in> set out"
    unfolding out apply_eq_appended by (rule appended_keeps_results)
  have fifth: "filter is_assistant out = filter (\<lambda>x. is_assistant x \<and> kept x) ?one"
    unfolding out apply_eq_appended by (rule appended_assistant_list)
  have seventh: "\<exists>c pre mid post.
            out = pre @ AssistantMessage (a\<lparr>content := c\<rparr>) # mid @ ?r # post
            \<and> toolCalls_of c = map renamed (toolCalls_of (content a))
            \<and> ToolCall (renamed tc) \<in> set c"
    if alive: "stopReason a \<noteq> Error \<and> stopReason a \<noteq> Aborted"
  proof -
    from alive atp have "kept (?one ! p)" by simp
    moreover from atj have "kept (?one ! j)" by simp
    ultimately obtain pre mid post where
      "InsertSyntheticToolResults_apply clock ?one = pre @ ?one ! p # mid @ ?one ! j # post"
      using repair_keeps_order [OF assms(1) lenj] by blast
    with atp atj out
    have "out = pre @ AssistantMessage (a\<lparr>content := c\<rparr>) # mid @ ?r # post"
      by simp
    with call all show ?thesis by blast
  qed
  have eighth: "\<forall>c. AssistantMessage (a\<lparr>content := c\<rparr>) \<notin> set out"
    if "stopReason a = Error \<or> stopReason a = Aborted"
    using that unfolding out apply_eq_appended by (auto simp: appended_assistants)
  from len atj third out fifth sixth seventh eighth show ?thesis by blast
qed

theorem transformMessages_id_remap_witness:
  "transformMessages (\<lambda>msg. True) (\<lambda>k. 0)
      [assistant_calling ''gpt-test'' ''orig'' ToolUse, result_for ''orig'']
      other_model (Some norm_prefix) =
     Inr [assistant_calling ''gpt-test'' ''norm-orig'' ToolUse, result_for ''norm-orig'']
   \<and> NormalizeAssistantContent_apply other_model (Some norm_prefix)
        [assistant_calling ''gpt-test'' ''orig'' ToolUse, result_for ''orig''] ! 1 =
       result_for ''norm-orig''
   \<and> filter is_assistant
        [assistant_calling ''gpt-test'' ''norm-orig'' ToolUse, result_for ''norm-orig''] =
       filter (\<lambda>x. is_assistant x \<and> kept x)
         (NormalizeAssistantContent_apply other_model (Some norm_prefix)
            [assistant_calling ''gpt-test'' ''orig'' ToolUse, result_for ''orig''])
   \<and> (\<exists>c pre mid post.
         [assistant_calling ''gpt-test'' ''norm-orig'' ToolUse, result_for ''norm-orig''] =
           pre @ AssistantMessage (blank_message\<lparr>content := c, model := ''gpt-test'',
                                                   stopReason := ToolUse\<rparr>)
             # mid @ result_for ''norm-orig'' # post
         \<and> toolCalls_of c =
             [\<lparr>tcId = ''norm-orig'', tcName = ''search'', tcArguments = JObj [],
               thoughtSignature = None\<rparr>]
         \<and> call ''norm-orig'' \<in> set c)"
proof -
  have run: "transformMessages (\<lambda>msg. True) (\<lambda>k. 0)
      [assistant_calling ''gpt-test'' ''orig'' ToolUse, result_for ''orig'']
      other_model (Some norm_prefix) =
     Inr [assistant_calling ''gpt-test'' ''norm-orig'' ToolUse, result_for ''norm-orig'']"
    by (simp add: example_defs)
  have hyps: "0 < (1::nat)" "1 < length [assistant_calling ''gpt-test'' ''orig'' ToolUse,
      result_for ''orig'']"
    "[assistant_calling ''gpt-test'' ''orig'' ToolUse, result_for ''orig''] ! 0 =
      AssistantMessage (blank_message\<lparr>content := [call ''orig''], model := ''gpt-test'',
                                         stopReason := ToolUse\<rparr>)"
    "\<not> isSameModel (blank_message\<lparr>content := [call ''orig''], model := ''gpt-test'',
                                         stopReason := ToolUse\<rparr>) other_model"
    "ToolCall \<lparr>tcId = ''orig'', tcName = ''search'', tcArguments = JObj [],
                     thoughtSignature = None\<rparr>
          \<in> set (content (blank_message\<lparr>content := [call ''orig''], model := ''gpt-test'',
                                         stopReason := ToolUse\<rparr>))"
    "[assistant_calling ''gpt-test'' ''orig'' ToolUse, result_for ''orig''] ! 1 =
      ToolResultMessage \<lparr>toolCallId = ''orig'', toolName = ''search'', resultContent = [],
                        isError = False, resultTimestamp = 0\<rparr>"
    "toolCallId \<lparr>toolCallId = ''orig'', toolName = ''search'', resultContent = [],
                        isError = False, resultTimestamp = 0\<rparr> =
         tcId \<lparr>tcId = ''orig'', tcName = ''search'', tcArguments = JObj [],
                     thoughtSignature = None\<rparr>"
    by (simp_all add: example_defs)
  have alive: "stopReason (blank_message\<lparr>content := [call ''orig''], model := ''gpt-test'',
                                         stopReason := ToolUse\<rparr>) \<noteq> Error
      \<and> stopReason (blank_message\<lparr>content := [call ''orig''], model := ''gpt-test'',
                                         stopReason := ToolUse\<rparr>) \<noteq> Aborted"
    by simp
  note t = transformMessages_id_remap [OF hyps run]
  note nth = t [THEN conjunct2, THEN conjunct1]
  note flt = t [THEN conjunct2, THEN conjunct2, THEN conjunct2, THEN conjunct2, THEN conjunct1]
  note ord = t [THEN conjunct2, THEN conjunct2, THEN conjunct2, THEN conjunct2, THEN conjunct2,
      THEN conjunct2, THEN conjunct1, THEN mp, OF alive]
  from nth have second: "NormalizeAssistantContent_apply other_model (Some norm_prefix)
        [assistant_calling ''gpt-test'' ''orig'' ToolUse, result_for ''orig''] ! 1 =
       result_for ''norm-orig''"
    by (simp add: result_for_def)
  from ord have fourth: "\<exists>c pre mid post.
         [assistant_calling ''gpt-test'' ''norm-orig'' ToolUse, result_for ''norm-orig''] =
           pre @ AssistantMessage (blank_message\<lparr>content := c, model := ''gpt-test'',
                                                   stopReason := ToolUse\<rparr>)
             # mid @ result_for ''norm-orig'' # post
         \<and> toolCalls_of c =
             [\<lparr>tcId = ''norm-orig'', tcName = ''search'', tcArguments = JObj [],
               thoughtSignature = None\<rparr>]
         \<and> call ''norm-orig'' \<in> set c"
    by (simp add: result_for_def call_def blank_message_def renamed_def)
  from run second flt fourth show ?thesis by blast
qed

text \<open>
  C5, as stated, for the whole pipeline with the normalizer \<open>id => "norm-" + id\<close>: the
  output of the first run holds, for the tool call \<open>norm-x\<close> of the third message, the
  matching result right after it; the second run renames that result after a tool call
  of the first message and inserts a synthetic result for \<open>norm-x\<close>.
\<close>

theorem transformMessages_twice_counterexample:
  "transformMessages (\<lambda>msg. True) (\<lambda>k. 0)
      [assistant_calling ''gpt-test'' ''x'' ToolUse, result_for ''x'',
       assistant_calling ''other-model'' ''norm-x'' ToolUse, result_for ''norm-x'', continue]
      other_model (Some norm_prefix) =
     Inr [assistant_calling ''gpt-test'' ''norm-x'' ToolUse, result_for ''norm-x'',
          assistant_calling ''other-model'' ''norm-x'' ToolUse, result_for ''norm-x'', continue]
   \<and> transformMessages (\<lambda>msg. True) (\<lambda>k. 7)
      [assistant_calling ''gpt-test'' ''norm-x'' ToolUse, result_for ''norm-x'',
       assistant_calling ''other-model'' ''norm-x'' ToolUse, result_for ''norm-x'', continue]
      other_model (Some norm_prefix) =
     Inr [assistant_calling ''gpt-test'' ''norm-norm-x'' ToolUse, result_for ''norm-norm-x'',
          assistant_calling ''other-model'' ''norm-x'' ToolUse, result_for ''norm-norm-x'',
          no_result_for ''norm-x'' 7, continue]"
  by (simp add: example_defs)

text \<open>
  C5 (amended): the repair stage alone is idempotent: run on its own output it returns
  the list unchanged, so it inserts no further synthetic result. The whole pipeline is
  idempotent in the same sense when no normalizer is supplied or the normalizer is
  idempotent, as the normalizer of the repository's adapters is: if \<open>transformMessages\<close>
  returns a list, it returns that list unchanged when run on it again.
\<close>

theorem repair_stage_idempotent:
  "InsertSyntheticToolResults_apply cb (InsertSyntheticToolResults_apply ca msgs) =
     InsertSyntheticToolResults_apply ca msgs
   \<and> (idempotent_normalizer m nz \<and> transformMessages v ca msgs m nz = Inr out \<longrightarrow>
        transformMessages v cb out m nz = Inr out)"
  using repair_idempotent transformMessages_idempotent by blast

lemma normalizeToolCallId_idempotent:
  "idempotent_normalizer m (Some normalizeToolCallId)"
proof -
  have "id_char CHR ''_''" by (simp add: id_char_def)
  then have "map (\<lambda>c. if id_char c then c else CHR ''_'')
               (take 64 (map (\<lambda>c. if id_char c then c else CHR ''_'') i)) =
             take 64 (map (\<lambda>c. if id_char c then c else CHR ''_'') i)" for i
    by (simp add: take_map o_def if_distrib cong: if_cong)
  then show ?thesis
    by (simp add: idempotent_normalizer_def normalizeToolCallId_def)
qed

theorem repair_stage_idempotent_witness:
  "InsertSyntheticToolResults_apply (\<lambda>k. 9)
      (InsertSyntheticToolResults_apply (\<lambda>k. 5)
         [assistant_calling ''gpt-test'' ''orig|id'' ToolUse, continue]) =
     [assistant_calling ''gpt-test'' ''orig|id'' ToolUse, no_result_for ''orig|id'' 5, continue]
   \<and> transformMessages (\<lambda>msg. True) (\<lambda>k. 5)
       [assistant_calling ''gpt-test'' ''orig|id'' ToolUse, continue]
       other_model (Some normalizeToolCallId) =
     Inr [assistant_calling ''gpt-test'' ''orig_id'' ToolUse, no_result_for ''orig_id'' 5, continue]
   \<and> transformMessages (\<lambda>msg. True) (\<lambda>k. 9)
       [assistant_calling ''gpt-test'' ''orig_id'' ToolUse, no_result_for ''orig_id'' 5, continue]
       other_model (Some normalizeToolCallId) =
     Inr [assistant_calling ''gpt-test'' ''orig_id'' ToolUse, no_result_for ''orig_id'' 5, continue]"
proof -
  have run: "transformMessages (\<lambda>msg. True) (\<lambda>k. 5)
       [assistant_calling ''gpt-test'' ''orig|id'' ToolUse, continue]
       other_model (Some normalizeToolCallId) =
     Inr [assistant_calling ''gpt-test'' ''orig_id'' ToolUse, no_result_for ''orig_id'' 5, continue]"
    by (simp add: example_defs normalizeToolCallId_def id_char_def)
  have once: "InsertSyntheticToolResults_apply (\<lambda>k. 5)
         [assistant_calling ''gpt-test'' ''orig|id'' ToolUse, continue] =
     [assistant_calling ''gpt-test'' ''orig|id'' ToolUse, no_result_for ''orig|id'' 5, continue]"
    by (simp add: example_defs)
  from repair_stage_idempotent [of "\<lambda>k. 9" "\<lambda>k. 5"
      "[assistant_calling ''gpt-test'' ''orig|id'' ToolUse, continue]"
      other_model "Some normalizeToolCallId" "\<lambda>msg. True"
      "[assistant_calling ''gpt-test'' ''orig_id'' ToolUse, no_result_for ''orig_id'' 5, continue]"]
    normalizeToolCallId_idempotent [of other_model] run once
  show ?thesis by simp
qed

text \<open>
  C8: the assistant messages in the output of the repair stage are exactly the assistant
  messages of its input that stopped with neither \<open>error\<close> nor \<open>aborted\<close>: those
  that did are absent from the output, and so they are from every list that
  \<open>transformMessages\<close> returns. At the head of a list such a message leaves no
  trace at all: the stage returns what it returns for the rest of the list.
\<close>

theorem repair_drops_failed_assistants:
  "(AssistantMessage a \<in> set (InsertSyntheticToolResults_apply clock msgs) \<longleftrightarrow>
      AssistantMessage a \<in> set msgs \<and> stopReason a \<noteq> Error \<and> stopReason a \<noteq> Aborted)
   \<and> (transformMessages v clock msgs m nz = Inr out \<and> AssistantMessage b \<in> set out \<longrightarrow>
        stopReason b \<noteq> Error \<and> stopReason b \<noteq> Aborted)
   \<and> (stopReason d = Error \<or> stopReason d = Aborted \<longrightarrow>
        InsertSyntheticToolResults_apply clock (AssistantMessage d # msgs) =
          InsertSyntheticToolResults_apply clock msgs)"
proof (intro conjI impI)
  assume "stopReason d = Error \<or> stopReason d = Aborted"
  then show "InsertSyntheticToolResults_apply clock (AssistantMessage d # msgs) =
          InsertSyntheticToolResults_apply clock msgs"
    by (auto simp: apply_eq_appended)
next
  show "AssistantMessage a \<in> set (InsertSyntheticToolResults_apply clock msgs) \<longleftrightarrow>
      AssistantMessage a \<in> set msgs \<and> stopReason a \<noteq> Error \<and> stopReason a \<noteq> Aborted"
    by (simp add: apply_eq_appended appended_assistants)
next
  assume h: "transformMessages v clock msgs m nz = Inr out \<and> AssistantMessage b \<in> set out"
  then have "out = InsertSyntheticToolResults_apply clock (NormalizeAssistantContent_apply m nz msgs)"
    unfolding transformMessages_Inr by blast
  with h have "AssistantMessage b \<in> set (appended clock
      (NormalizeAssistantContent_apply m nz msgs) [] {} 0)"
    by (simp add: apply_eq_appended)
  then show "stopReason b \<noteq> Error" and "stopReason b \<noteq> Aborted"
    by (simp_all add: appended_assistants)
qed

theorem repair_drops_failed_assistants_witness:
  "assistant_calling ''gpt-test'' ''a'' Aborted
     \<notin> set (InsertSyntheticToolResults_apply (\<lambda>k. 0)
          [assistant_calling ''gpt-test'' ''a'' Aborted,
           assistant_calling ''gpt-test'' ''b'' ToolUse, result_for ''b''])
   \<and> assistant_calling ''gpt-test'' ''b'' ToolUse
     \<in> set (InsertSyntheticToolResults_apply (\<lambda>k. 0)
          [assistant_calling ''gpt-test'' ''a'' Aborted,
           assistant_calling ''gpt-test'' ''b'' ToolUse, result_for ''b''])
   \<and> transformMessages (\<lambda>msg. True) (\<lambda>k. 0)
          [assistant_calling ''gpt-test'' ''a'' Aborted,
           assistant_calling ''gpt-test'' ''b'' ToolUse, result_for ''b'']
          other_model None =
       Inr [assistant_calling ''gpt-test'' ''b'' ToolUse, result_for ''b'']
   \<and> stopReason (blank_message\<lparr>content := [call ''b''], model := ''gpt-test'',
                                  stopReason := ToolUse\<rparr>) \<noteq> Aborted"
proof -
  have run: "transformMessages (\<lambda>msg. True) (\<lambda>k. 0)
          [assistant_calling ''gpt-test'' ''a'' Aborted,
           assistant_calling ''gpt-test'' ''b'' ToolUse, result_for ''b'']
          other_model None =
       Inr [assistant_calling ''gpt-test'' ''b'' ToolUse, result_for ''b'']"
    by (simp add: example_defs)
  note t = repair_drops_failed_assistants [where clock = "\<lambda>k. 0"
      and msgs = "[assistant_calling ''gpt-test'' ''a'' Aborted,
           assistant_calling ''gpt-test'' ''b'' ToolUse, result_for ''b'']"
      and v = "\<lambda>msg. True" and m = other_model and nz = None
      and out = "[assistant_calling ''gpt-test'' ''b'' ToolUse, result_for ''b'']"
      and b = "blank_message\<lparr>content := [call ''b''], model := ''gpt-test'',
                                  stopReason := ToolUse\<rparr>"
      and d = "blank_message\<lparr>content := [call ''a''], model := ''gpt-test'',
                                  stopReason := Aborted\<rparr>"]
  from t [where a = "blank_message\<lparr>content := [call ''a''], model := ''gpt-test'',
                                  stopReason := Aborted\<rparr>"]
    t [where a = "blank_message\<lparr>content := [call ''b''], model := ''gpt-test'',
                                  stopReason := ToolUse\<rparr>"] run
  show ?thesis
    by (simp add: assistant_calling_def result_for_def)
qed

section \<open>Streaming JSON parser: properties\<close>

lemma trim_examples: "trim truncated_object = truncated_object" "trim not_json = not_json"
  by (simp_all add: trim_def truncated_object_def not_json_def is_white_space_def)

text \<open>
  C6, as stated, on the empty input with parsers that both reject it and with partial
  parsing allowed: no parse is attempted, the diagnostics carry no error, and
  \<open>usedPartialParser\<close> is false.
\<close>

theorem parseStreamingJson_empty_counterexample:
  "parseStreamingJsonWithDiagnostics
      (\<lambda>s. Inl ''Unexpected end of JSON input'') (\<lambda>s. Inl ''input is empty'')
      (Some []) default_options =
     \<lparr>parsedValue = JObj [], parsed = False, usedPartialParser = False, parseError = None\<rparr>"
  by (simp add: parseStreamingJsonWithDiagnostics_def default_options_def fallback_of_def
      trim_def)

text \<open>
  C6 (amended): the function returns a result for every input and never throws. An
  input that is absent, or empty after trimming (not trimmed when \<open>trimInput\<close> is
  false), is not parsed: the result is the fallback with \<open>parsed = false\<close>,
  \<open>usedPartialParser = false\<close> and no error. Any other input is first parsed strictly;
  when that fails and \<open>allowPartial\<close> is false the result is the fallback with the
  strict error; otherwise the tolerant parser is tried, and when it fails too the result
  is the fallback with \<open>parsed = false\<close>, \<open>usedPartialParser = true\<close> and its
  error. The fallback is the caller's value, or \<open>{}\<close> when that is absent or null. In
  particular \<open>{"a":\<close>, rejected by the strict and accepted by the tolerant parser,
  gives \<open>parsed = true\<close> and \<open>usedPartialParser = true\<close>, and \<open>not json\<close> with
  \<open>allowPartial = false\<close> gives \<open>parsed = false\<close> and the fallback.
\<close>

theorem parseStreamingJson_diagnostics:
  "((if trimInput options = Some False then partialJson else map_option trim partialJson)
       \<in> {None, Some []} \<longrightarrow>
      parseStreamingJsonWithDiagnostics jp pp partialJson options =
        \<lparr>parsedValue = fallback_of options, parsed = False, usedPartialParser = False,
         parseError = None\<rparr>)
   \<and> ((if trimInput options = Some False then partialJson else map_option trim partialJson)
         = Some s \<and> s \<noteq> [] \<longrightarrow>
        parseStreamingJsonWithDiagnostics jp pp partialJson options =
          (case jp s of
             Inr v \<Rightarrow> \<lparr>parsedValue = v, parsed = True, usedPartialParser = False,
                        parseError = None\<rparr>
           | Inl e \<Rightarrow>
               if allowPartial options = Some False
               then \<lparr>parsedValue = fallback_of options, parsed = False,
                     usedPartialParser = False, parseError = Some e\<rparr>
               else (case pp s of
                       Inr v \<Rightarrow> \<lparr>parsedValue = nullish_or v (fallback_of options),
                                  parsed = True, usedPartialParser = True, parseError = None\<rparr>
                     | Inl e' \<Rightarrow> \<lparr>parsedValue = fallback_of options, parsed = False,
                                   usedPartialParser = True, parseError = Some e'\<rparr>)))
   \<and> (jp truncated_object = Inl e1 \<and> pp truncated_object = Inr v1
        \<and> allowPartial options \<noteq> Some False \<longrightarrow>
        parsed (parseStreamingJsonWithDiagnostics jp pp (Some truncated_object) options)
        \<and> usedPartialParser
             (parseStreamingJsonWithDiagnostics jp pp (Some truncated_object) options))
   \<and> (jp not_json = Inl e2 \<and> allowPartial options = Some False \<longrightarrow>
        \<not> parsed (parseStreamingJsonWithDiagnostics jp pp (Some not_json) options)
        \<and> parsedValue (parseStreamingJsonWithDiagnostics jp pp (Some not_json) options) =
            fallback_of options
        \<and> parseStreamingJson jp pp (Some not_json) options = fallback_of options)"
proof (intro conjI impI)
  assume "(if trimInput options = Some False then partialJson else map_option trim partialJson)
       \<in> {None, Some []}"
  then show "parseStreamingJsonWithDiagnostics jp pp partialJson options =
        \<lparr>parsedValue = fallback_of options, parsed = False, usedPartialParser = False,
         parseError = None\<rparr>"
    by (auto simp: parseStreamingJsonWithDiagnostics_def Let_def split: if_splits)
next
  assume "(if trimInput options = Some False then partialJson else map_option trim partialJson)
         = Some s \<and> s \<noteq> []"
  then show "parseStreamingJsonWithDiagnostics jp pp partialJson options =
          (case jp s of
             Inr v \<Rightarrow> \<lparr>parsedValue = v, parsed = True, usedPartialParser = False,
                        parseError = None\<rparr>
           | Inl e \<Rightarrow>
               if allowPartial options = Some False
               then \<lparr>parsedValue = fallback_of options, parsed = False,
                     usedPartialParser = False, parseError = Some e\<rparr>
               else (case pp s of
                       Inr v \<Rightarrow> \<lparr>parsedValue = nullish_or v (fallback_of options),
                                  parsed = True, usedPartialParser = True, parseError = None\<rparr>
                     | Inl e' \<Rightarrow> \<lparr>parsedValue = fallback_of options, parsed = False,
                                   usedPartialParser = True, parseError = Some e'\<rparr>))"
    by (auto simp: parseStreamingJsonWithDiagnostics_def Let_def split: if_splits sum.splits)
next
  have ne: "truncated_object \<noteq> []" by (simp add: truncated_object_def)
  assume "jp truncated_object = Inl e1 \<and> pp truncated_object = Inr v1
        \<and> allowPartial options \<noteq> Some False"
  then show "parsed (parseStreamingJsonWithDiagnostics jp pp (Some truncated_object) options)"
    and "usedPartialParser
             (parseStreamingJsonWithDiagnostics jp pp (Some truncated_object) options)"
    using ne by (simp_all add: parseStreamingJsonWithDiagnostics_def Let_def trim_examples)
next
  have ne: "not_json \<noteq> []" by (simp add: not_json_def)
  assume "jp not_json = Inl e2 \<and> allowPartial options = Some False"
  then show "\<not> parsed (parseStreamingJsonWithDiagnostics jp pp (Some not_json) options)"
    and "parsedValue (parseStreamingJsonWithDiagnostics jp pp (Some not_json) options) =
            fallback_of options"
    and "parseStreamingJson jp pp (Some not_json) options = fallback_of options"
    using ne
    by (simp_all add: parseStreamingJson_def parseStreamingJsonWithDiagnostics_def Let_def
        trim_examples)
qed

theorem parseStreamingJson_diagnostics_witness:
  "parseStreamingJsonWithDiagnostics
      (\<lambda>s. if s = ''{}'' then Inr (JObj []) else Inl ''Unexpected token'')
      (\<lambda>s. if s = truncated_object then Inr (JObj []) else Inl ''Malformed'')
      None default_options =
     \<lparr>parsedValue = JObj [], parsed = False, usedPartialParser = False, parseError = None\<rparr>
   \<and> parseStreamingJsonWithDiagnostics
      (\<lambda>s. if s = ''{}'' then Inr (JObj []) else Inl ''Unexpected token'')
      (\<lambda>s. if s = truncated_object then Inr (JObj []) else Inl ''Malformed'')
      (Some ''nope'') (default_options\<lparr>trimInput := Some False\<rparr>) =
     \<lparr>parsedValue = JObj [], parsed = False, usedPartialParser = True,
      parseError = Some ''Malformed''\<rparr>
   \<and> parsed (parseStreamingJsonWithDiagnostics
      (\<lambda>s. if s = ''{}'' then Inr (JObj []) else Inl ''Unexpected token'')
      (\<lambda>s. if s = truncated_object then Inr (JObj []) else Inl ''Malformed'')
      (Some truncated_object) (default_options\<lparr>trimInput := Some False\<rparr>))
   \<and> usedPartialParser (parseStreamingJsonWithDiagnostics
      (\<lambda>s. if s = ''{}'' then Inr (JObj []) else Inl ''Unexpected token'')
      (\<lambda>s. if s = truncated_object then Inr (JObj []) else Inl ''Malformed'')
      (Some truncated_object) (default_options\<lparr>trimInput := Some False\<rparr>))
   \<and> parseStreamingJson
      (\<lambda>s. if s = ''{}'' then Inr (JObj []) else Inl ''Unexpected token'')
      (\<lambda>s. if s = truncated_object then Inr (JObj []) else Inl ''Malformed'')
      (Some not_json)
      \<lparr>fallbackValue = Some (JStr ''fallback''), allowPartial = Some False,
       trimInput = Some False\<rparr> = JStr ''fallback''"
proof -
  let ?jp = "\<lambda>s. if s = ''{}'' then Inr (JObj []) else Inl ''Unexpected token''"
  let ?pp = "\<lambda>s. if s = truncated_object then Inr (JObj []) else Inl ''Malformed''"
  note t = parseStreamingJson_diagnostics [where jp = ?jp and pp = ?pp
      and ?e1.0 = "''Unexpected token''" and ?v1.0 = "JObj []"
      and ?e2.0 = "''Unexpected token''"]
  from t [where partialJson = None and options = default_options]
  have a: "parseStreamingJsonWithDiagnostics ?jp ?pp None default_options =
     \<lparr>parsedValue = JObj [], parsed = False, usedPartialParser = False, parseError = None\<rparr>"
    by (simp add: default_options_def fallback_of_def)
  from t [where partialJson = "Some ''nope''" and s = "''nope''"
      and options = "default_options\<lparr>trimInput := Some False\<rparr>"]
  have b: "parseStreamingJsonWithDiagnostics ?jp ?pp (Some ''nope'')
      (default_options\<lparr>trimInput := Some False\<rparr>) =
     \<lparr>parsedValue = JObj [], parsed = False, usedPartialParser = True,
      parseError = Some ''Malformed''\<rparr>"
    by (simp add: default_options_def fallback_of_def truncated_object_def)
  from t [where options = "default_options\<lparr>trimInput := Some False\<rparr>"]
  have c: "parsed (parseStreamingJsonWithDiagnostics ?jp ?pp (Some truncated_object)
      (default_options\<lparr>trimInput := Some False\<rparr>))
    \<and> usedPartialParser (parseStreamingJsonWithDiagnostics ?jp ?pp (Some truncated_object)
      (default_options\<lparr>trimInput := Some False\<rparr>))"
    by (simp add: default_options_def truncated_object_def)
  from t [where options = "\<lparr>fallbackValue = Some (JStr ''fallback''),
      allowPartial = Some False, trimInput = Some False\<rparr>"]
  have d: "parseStreamingJson ?jp ?pp (Some not_json)
      \<lparr>fallbackValue = Some (JStr ''fallback''), allowPartial = Some False,
       trimInput = Some False\<rparr> = JStr ''fallback''"
    by (simp add: not_json_def fallback_of_def nullish_or_def)
  from a b c d show ?thesis by blast
qed

section \<open>Event stream: properties\<close>

declare iterate.simps [simp del]

lemma push_done: "is_done s \<Longrightarrow> push cfg event s = s"
  by (simp add: push_def)

lemma push_complete_done: "isComplete cfg event \<Longrightarrow> is_done (push cfg event s)"
  by (cases "waiting s")
    (auto simp: push_def Let_def pushHistory_def resolveFinalResult_def
      split: option.splits list.splits)

lemma end_stream_done: "is_done (end_stream result s)"
  by (cases result) (simp_all add: end_stream_def Let_def resolveFinalResult_def split: option.splits)

lemma end_stream_waiting: "waiting (end_stream result s) = []"
  by (simp add: end_stream_def Let_def)

lemma end_stream_again: "end_stream None (end_stream result s) = end_stream result s"
  by (cases result) (simp_all add: end_stream_def Let_def resolveFinalResult_def split: option.splits)

lemma end_stream_same: "end_stream result (end_stream result s) = end_stream result s"
  by (cases result) (simp_all add: end_stream_def Let_def resolveFinalResult_def split: option.splits)

lemma end_stream_fields:
  "queue (end_stream None s) = queue s" "history (end_stream None s) = history s"
  "finalResult (end_stream None s) = finalResult s"
  by (simp_all add: end_stream_def Let_def)

text \<open>
  C7: once the stream is done, which a push of an event satisfying \<open>isComplete\<close> and
  every \<open>end\<close> bring about, a push changes nothing at all (so the queue, the history
  and the final result stay as they are); \<open>end()\<close> without a result never changes the
  queue, the history or the final result; and \<open>end()\<close> called again after an \<open>end\<close>
  leaves the whole state as it is.
\<close>

theorem push_after_done_is_noop:
  "(is_done s \<longrightarrow> push cfg event s = s)
   \<and> (isComplete cfg event \<longrightarrow> is_done (push cfg event s) \<and> push cfg event' (push cfg event s) = push cfg event s)
   \<and> is_done (end_stream result s)
   \<and> push cfg event (end_stream result s) = end_stream result s
   \<and> end_stream None (end_stream result s) = end_stream result s
   \<and> end_stream result (end_stream result s) = end_stream result s
   \<and> queue (end_stream None s) = queue s
   \<and> history (end_stream None s) = history s
   \<and> finalResult (end_stream None s) = finalResult s"
proof (intro conjI impI)
  assume "is_done s"
  then show "push cfg event s = s" by (rule push_done)
next
  assume c: "isComplete cfg event"
  then show d: "is_done (push cfg event s)" by (rule push_complete_done)
  from c have "is_done (push cfg event s)" by (rule push_complete_done)
  then show "push cfg event' (push cfg event s) = push cfg event s" by (rule push_done)
next
  show "is_done (end_stream result s)" by (rule end_stream_done)
  show "push cfg event (end_stream result s) = end_stream result s"
    by (rule push_done [OF end_stream_done])
  show "end_stream None (end_stream result s) = end_stream result s"
    by (rule end_stream_again)
  show "end_stream result (end_stream result s) = end_stream result s"
    by (rule end_stream_same)
  show "queue (end_stream None s) = queue s" "history (end_stream None s) = history s"
    "finalResult (end_stream None s) = finalResult s"
    by (rule end_stream_fields)+
qed

lemma three_pushed:
  "push \<lparr>isComplete = (\<lambda>n. n = (3::nat)), extractResult = (\<lambda>n. n), historyLimit = Some 2\<rparr> 3
     (push \<lparr>isComplete = (\<lambda>n. n = (3::nat)), extractResult = (\<lambda>n. n), historyLimit = Some 2\<rparr> 2
       (push \<lparr>isComplete = (\<lambda>n. n = (3::nat)), extractResult = (\<lambda>n. n), historyLimit = Some 2\<rparr> 1
          new_stream)) =
   \<lparr>queue = [1, 2, 3], waiting = [], is_done = True, finalResult = Some 3,
    history = [2, 3], notified = []\<rparr>"
  by (simp add: push_def pushHistory_def resolveFinalResult_def new_stream_def Let_def)

theorem push_after_done_is_noop_witness:
  "push \<lparr>isComplete = (\<lambda>n. n = (3::nat)), extractResult = (\<lambda>n. n), historyLimit = Some 2\<rparr> 4
     \<lparr>queue = [1, 2, 3], waiting = [], is_done = True, finalResult = Some (3::nat),
      history = [2, 3], notified = []\<rparr> =
   \<lparr>queue = [1, 2, 3], waiting = [], is_done = True, finalResult = Some 3,
    history = [2, 3], notified = []\<rparr>
   \<and> is_done (push \<lparr>isComplete = (\<lambda>n. n = (3::nat)), extractResult = (\<lambda>n. n),
                     historyLimit = Some 2\<rparr> 3
        \<lparr>queue = [1, 2], waiting = [], is_done = False, finalResult = None,
         history = [1, 2], notified = []\<rparr>)"
  using push_after_done_is_noop [of
      "\<lparr>queue = [1, 2, 3], waiting = [], is_done = True, finalResult = Some (3::nat),
        history = [2, 3], notified = []\<rparr>"
      "\<lparr>isComplete = (\<lambda>n. n = (3::nat)), extractResult = (\<lambda>n. n), historyLimit = Some 2\<rparr>" 4]
    push_after_done_is_noop [of
      "\<lparr>queue = [1, 2], waiting = [], is_done = False, finalResult = (None :: nat option),
         history = [1, 2], notified = []\<rparr>"
      "\<lparr>isComplete = (\<lambda>n. n = (3::nat)), extractResult = (\<lambda>n. n), historyLimit = Some 2\<rparr>" 3]
  by simp

lemma pull_done: "is_done s \<Longrightarrow> is_done (fst (pull c s))"
  by (simp add: pull_def split: list.splits)

lemma pull_finalResult: "finalResult (fst (pull c s)) = finalResult s"
  by (simp add: pull_def split: list.splits)

lemma push_finalResult:
  "finalResult (push cfg event s) =
     (if \<not> is_done s \<and> isComplete cfg event \<and> finalResult s = None
      then Some (extractResult cfg event) else finalResult s)"
  by (cases "waiting s"; cases "finalResult s"; cases "historyLimit cfg")
    (simp_all add: push_def Let_def pushHistory_def resolveFinalResult_def)

lemma end_stream_finalResult:
  "finalResult (end_stream result s) =
     (case finalResult s of None \<Rightarrow> result | Some r \<Rightarrow> Some r)"
  by (cases result; cases "finalResult s")
    (simp_all add: end_stream_def Let_def resolveFinalResult_def)

lemma apply_op_done: "is_done s \<Longrightarrow> is_done (apply_op cfg x s)"
  by (cases x) (simp_all add: push_done end_stream_done pull_done)

lemma apply_op_settles:
  "finalResult s = None \<Longrightarrow>
     finalResult (apply_op cfg x s) \<noteq> None \<longleftrightarrow>
       (\<not> is_done s \<and> pushes_complete cfg x) \<or> ends_with_result x"
proof (cases x)
  case (Push event)
  assume "finalResult s = None"
  with Push show ?thesis by (simp add: push_finalResult)
next
  case (End result)
  assume "finalResult s = None"
  with End show ?thesis by (cases result) (simp_all add: end_stream_finalResult)
next
  case (Pull c)
  assume "finalResult s = None"
  with Pull show ?thesis by (simp add: pull_finalResult)
qed

lemma run_ops_append: "run_ops cfg (xs @ ys) s = run_ops cfg ys (run_ops cfg xs s)"
  by (induction xs arbitrary: s) simp_all

lemma run_ops_no_complete:
  "finalResult s = None \<Longrightarrow>
   \<forall>x\<in>set xs. \<not> pushes_complete cfg x \<and> \<not> ends_with_result x \<Longrightarrow>
   finalResult (run_ops cfg xs s) = None"
proof (induction xs arbitrary: s)
  case Nil
  then show ?case by simp
next
  case (Cons x xs)
  from Cons.prems have "finalResult (apply_op cfg x s) = None"
    using apply_op_settles [of s cfg x] by auto
  with Cons show ?case by simp
qed

lemma run_ops_done:
  "finalResult s = None \<Longrightarrow> is_done s \<Longrightarrow>
   \<forall>x\<in>set xs. \<not> ends_with_result x \<Longrightarrow>
   finalResult (run_ops cfg xs s) = None"
proof (induction xs arbitrary: s)
  case Nil
  then show ?case by simp
next
  case (Cons x xs)
  from Cons.prems have "finalResult (apply_op cfg x s) = None"
    using apply_op_settles [of s cfg x] by auto
  moreover from Cons.prems have "is_done (apply_op cfg x s)" by (simp add: apply_op_done)
  ultimately show ?case using Cons by simp
qed

lemma iterate_empty:
  "is_done s \<Longrightarrow> queue s = [] \<Longrightarrow> iterate c s = (s\<lparr>queue := []\<rparr>, queue s, Returned)"
  by (subst iterate.simps) (simp add: pull_def)

lemma iterate_step:
  "queue s = event # rest \<Longrightarrow>
   iterate c (s\<lparr>queue := rest\<rparr>) = (s\<lparr>queue := []\<rparr>, rest, Returned) \<Longrightarrow>
   iterate c s = (s\<lparr>queue := []\<rparr>, queue s, Returned)"
  by (subst iterate.simps) (simp add: pull_def)

lemma iterate_done:
  "is_done s \<Longrightarrow> iterate c s = (s\<lparr>queue := []\<rparr>, queue s, Returned)"
proof (induction "queue s" arbitrary: s)
  case Nil
  from Nil.hyps have "queue s = []" by simp
  with Nil.prems show ?case by (rule iterate_empty)
next
  case (Cons event rest)
  from Cons.hyps(2) have q: "queue s = event # rest" by simp
  have "iterate c (s\<lparr>queue := rest\<rparr>) =
          (s\<lparr>queue := rest\<rparr>\<lparr>queue := []\<rparr>, queue (s\<lparr>queue := rest\<rparr>), Returned)"
    by (rule Cons.hyps(1)) (use Cons.prems in simp_all)
  then have "iterate c (s\<lparr>queue := rest\<rparr>) = (s\<lparr>queue := []\<rparr>, rest, Returned)"
    by simp
  with q show ?case by (rule iterate_step)
qed

text \<open>
  C9: let a stream be reached from a new one by pushes of events that do not satisfy
  \<open>isComplete\<close>, by \<open>end()\<close> without a result and by turns of iterators. After
  \<open>end()\<close> without a result the final result is pending, and it stays pending whatever
  is pushed or iterated and however often \<open>end()\<close> is called without a result. The
  iterators terminate: the waiting consumers are all told that the stream is done, and an
  iteration yields what is left in the queue and returns. A pending final result is
  settled by one step exactly when the step is a push, on a stream that is not done, of an
  event that satisfies \<open>isComplete\<close>, or an \<open>end\<close> with a result.
\<close>

theorem end_without_result_never_resolves:
  "((\<forall>x\<in>set before. \<not> pushes_complete cfg x \<and> \<not> ends_with_result x)
      \<and> (\<forall>x\<in>set after. \<not> ends_with_result x) \<longrightarrow>
      finalResult (run_ops cfg (before @ End None # after) new_stream) = None)
   \<and> waiting (end_stream result s) = []
   \<and> notified (end_stream None s) = notified s @ map (\<lambda>waiter. (waiter, Done)) (waiting s)
   \<and> iterate c (end_stream None s) = ((end_stream None s)\<lparr>queue := []\<rparr>, queue s, Returned)
   \<and> (finalResult s = None \<longrightarrow>
        (finalResult (apply_op cfg x s) \<noteq> None \<longleftrightarrow>
           (\<not> is_done s \<and> pushes_complete cfg x) \<or> ends_with_result x))"
proof (intro conjI impI)
  assume h: "(\<forall>x\<in>set before. \<not> pushes_complete cfg x \<and> \<not> ends_with_result x)
      \<and> (\<forall>x\<in>set after. \<not> ends_with_result x)"
  let ?s = "run_ops cfg before (new_stream :: ('a, 'b) event_stream)"
  have "finalResult ?s = None"
    by (rule run_ops_no_complete) (use h in \<open>simp_all add: new_stream_def\<close>)
  then have "finalResult (end_stream None ?s) = None"
    by (simp add: end_stream_finalResult)
  then have "finalResult (run_ops cfg after (end_stream None ?s)) = None"
    by (rule run_ops_done) (use h in \<open>simp_all add: end_stream_done\<close>)
  then show "finalResult (run_ops cfg (before @ End None # after) new_stream) = None"
    by (simp add: run_ops_append)
next
  show "waiting (end_stream result s) = []" by (rule end_stream_waiting)
next
  show "notified (end_stream None s) = notified s @ map (\<lambda>waiter. (waiter, Done)) (waiting s)"
    by (simp add: end_stream_def Let_def)
next
  show "iterate c (end_stream None s) = ((end_stream None s)\<lparr>queue := []\<rparr>, queue s, Returned)"
    using iterate_done [of "end_stream None s" c]
    by (simp add: end_stream_done end_stream_fields)
next
  assume "finalResult s = None"
  then show "finalResult (apply_op cfg x s) \<noteq> None \<longleftrightarrow>
           (\<not> is_done s \<and> pushes_complete cfg x) \<or> ends_with_result x"
    by (rule apply_op_settles)
qed

theorem end_without_result_never_resolves_witness:
  "finalResult (run_ops \<lparr>isComplete = (\<lambda>n. n = (3::nat)), extractResult = (\<lambda>n. n),
                          historyLimit = None\<rparr>
       ([Pull 0, Push 1, Push 2] @ End None # [Push 3, Pull 0, End None, Pull 1])
       new_stream) = None
   \<and> finalResult (apply_op \<lparr>isComplete = (\<lambda>n. n = (3::nat)), extractResult = (\<lambda>n. n),
                            historyLimit = None\<rparr> (Push 3)
       (new_stream :: (nat, nat) event_stream)) \<noteq> None"
  using end_without_result_never_resolves [of "[Pull 0, Push 1, Push 2]"
      "\<lparr>isComplete = (\<lambda>n. n = (3::nat)), extractResult = (\<lambda>n. n), historyLimit = None\<rparr>"
      "[Push 3, Pull 0, End None, Pull 1]" None "new_stream :: (nat, nat) event_stream"
      0 "Push 3"]
  by (simp add: new_stream_def)

section \<open>Provider registry: properties\<close>

lemma map_of_map_set: "map_of (map_set k v reg) k' = (if k' = k then Some v else map_of reg k')"
  by (induction reg) auto

lemma keys_map_set:
  "map fst (map_set k v reg) = (if k \<in> set (map fst reg) then map fst reg else map fst reg @ [k])"
  by (induction reg) force+

lemma set_map_set:
  "set (map_set k v reg) \<subseteq> insert (k, v) (set reg)"
  by (induction reg) (auto split: if_splits)

lemma registry_ok_map_set:
  assumes "registry_ok reg" and "providerApi (entryProvider v) = k"
  shows "registry_ok (map_set k v reg)"
proof -
  from assms(1) have "distinct (map fst (map_set k v reg))"
    by (simp add: keys_map_set registry_ok_def)
  moreover have "providerApi (entryProvider (snd kv)) = fst kv" if "kv \<in> set (map_set k v reg)" for kv
  proof -
    from that set_map_set [of k v reg] consider "kv = (k, v)" | "kv \<in> set reg" by auto
    then show ?thesis using assms by cases (auto simp: registry_ok_def)
  qed
  ultimately show ?thesis by (simp add: registry_ok_def)
qed

lemma registry_ok_lookup:
  "registry_ok reg \<Longrightarrow> map_of reg k = Some v \<Longrightarrow> providerApi (entryProvider v) = k"
  by (auto simp: registry_ok_def dest: map_of_SomeD)

lemma disable_ok:
  "registry_ok reg \<Longrightarrow> registry_ok (fst (disable a now reg))"
  by (cases "map_of reg a")
    (auto simp: disable_def intro!: registry_ok_map_set dest: registry_ok_lookup)

lemma enable_ok:
  "registry_ok reg \<Longrightarrow> registry_ok (fst (enable a now reg))"
  by (cases "map_of reg a")
    (auto simp: enable_def intro!: registry_ok_map_set dest: registry_ok_lookup)

lemma register_ok:
  "registry_ok reg \<Longrightarrow> register p options now reg = Inr reg' \<Longrightarrow> registry_ok reg'"
  by (auto simp: register_def Let_def intro!: registry_ok_map_set split: if_splits)

lemma empty_registry_ok: "registry_ok []"
  by (simp add: registry_ok_def)

lemma unregisterBySource_ok: "registry_ok reg \<Longrightarrow> registry_ok (unregisterBySource src reg)"
  by (auto simp: registry_ok_def unregisterBySource_def distinct_map_filter)

lemma clear_ok: "registry_ok (clear reg)"
  by (simp add: registry_ok_def clear_def)

lemma unregistered_get: "map_of reg a = None \<Longrightarrow> get a reg = None"
  by (simp add: get_def)

lemma disabled_not_listed:
  assumes "registry_ok reg" and "map_of reg a = Some entry"
    and "\<not> enabled (entryMetadata entry)"
  shows "entryProvider entry \<notin> set (list_providers False reg)"
proof
  assume "entryProvider entry \<in> set (list_providers False reg)"
  then obtain kv where kv: "kv \<in> set reg" and en: "enabled (entryMetadata (snd kv))"
    and eq: "entryProvider (snd kv) = entryProvider entry"
    by (auto simp: list_providers_def)
  from assms(1) kv have "providerApi (entryProvider (snd kv)) = fst kv"
    by (simp add: registry_ok_def)
  with eq registry_ok_lookup [OF assms(1,2)] have "fst kv = a" by simp
  moreover from assms(1) have "distinct (map fst reg)" by (simp add: registry_ok_def)
  moreover from kv have "(fst kv, snd kv) \<in> set reg" by simp
  ultimately have "map_of reg a = Some (snd kv)" by (auto intro: map_of_is_SomeI)
  with assms(2,3) en show False by simp
qed

lemma listed_with_disabled:
  "map_of reg a = Some entry \<Longrightarrow> entryProvider entry \<in> set (list_providers True reg)"
  by (force simp: list_providers_def dest: map_of_SomeD)

text \<open>
  C10: let \<open>api\<close> be registered. After \<open>disable(api)\<close> (which answers true) \<open>get(api)\<close>
  is \<open>undefined\<close>, as it is for a protocol that is not registered;
  \<open>getWithMetadata(api)\<close> still returns the entry, now disabled; \<open>list\<close> holds the
  provider when \<open>includeDisabled\<close> is true and not otherwise; both streaming entry
  points, given a model of that protocol that passes validation and a valid context, fail
  with the error "No API provider registered for api: ..."; and after a subsequent
  \<open>enable(api)\<close> \<open>get(api)\<close> returns the provider.
\<close>

theorem disabled_provider_is_hidden:
  fixes reg other :: "('c, 's) registry"
  assumes "registry_ok reg" and "getWithMetadata a reg = Some entry"
  shows "snd (disable a now reg)
    \<and> get a (fst (disable a now reg)) = None
    \<and> (map_of other a = None \<longrightarrow> get a other = None)
    \<and> getWithMetadata a (fst (disable a now reg)) =
         Some (entry\<lparr>entryMetadata := (entryMetadata entry)\<lparr>enabled := False, updatedAt := now\<rparr>\<rparr>)
    \<and> entryProvider entry \<in> set (list_providers True (fst (disable a now reg)))
    \<and> entryProvider entry \<notin> set (list_providers False (fst (disable a now reg)))
    \<and> (validateModel m = None \<and> modelApi m = a \<and> validateContext c \<longrightarrow>
         stream validateContext (fst (disable a now reg)) m c = Inl (NoApiProviderRegistered a)
         \<and> streamSimple validateContext (fst (disable a now reg)) m c =
             Inl (NoApiProviderRegistered a)
         \<and> error_message (NoApiProviderRegistered a) =
             ''No API provider registered for api: '' @ a)
    \<and> get a (fst (enable a later (fst (disable a now reg)))) = Some (entryProvider entry)"
proof -
  let ?off = "entry\<lparr>entryMetadata := (entryMetadata entry)\<lparr>enabled := False, updatedAt := now\<rparr>\<rparr>"
  let ?reg = "fst (disable a now reg)"
  from assms(2) have look: "map_of reg a = Some entry" by (simp add: getWithMetadata_def)
  then have dis: "disable a now reg = (map_set a ?off reg, True)" by (simp add: disable_def)
  then have look': "map_of ?reg a = Some ?off" by (simp add: map_of_map_set)
  have ok': "registry_ok ?reg" by (rule disable_ok [OF assms(1)])
  have gone: "get a ?reg = None" using look' by (simp add: get_def)
  have listed: "entryProvider ?off \<in> set (list_providers True ?reg)"
    by (rule listed_with_disabled [OF look'])
  have unlisted: "entryProvider ?off \<notin> set (list_providers False ?reg)"
    by (rule disabled_not_listed [OF ok' look']) simp
  have again: "get a (fst (enable a later ?reg)) = Some (entryProvider entry)"
    using look' by (simp add: enable_def get_def map_of_map_set)
  have fails: "stream validateContext ?reg m c = Inl (NoApiProviderRegistered a)
         \<and> streamSimple validateContext ?reg m c = Inl (NoApiProviderRegistered a)
         \<and> error_message (NoApiProviderRegistered a) =
             ''No API provider registered for api: '' @ a"
    if "validateModel m = None \<and> modelApi m = a \<and> validateContext c"
    using that gone by (simp add: stream_def streamSimple_def resolveApiProvider_def)
  from dis gone look' listed unlisted again fails unregistered_get [of other a]
  show ?thesis by (simp add: getWithMetadata_def)
qed

lemma echo_registered:
  "register (echo_provider ''kimi'') no_options 10 [] =
     Inr [(''kimi'',
           \<lparr>entryProvider =
              \<lparr>providerApi = ''kimi'',
               providerStream = wrapStream ''kimi'' (\<lambda>m c. Inr (modelId m)),
               providerStreamSimple = wrapStream ''kimi'' (\<lambda>m c. Inr (modelId m))\<rparr>,
            entryMetadata = \<lparr>sourceId = None, version = None, enabled = True,
                             registeredAt = 10, updatedAt = 10\<rparr>\<rparr>)]"
  by (simp add: register_def echo_provider_def no_options_def)

theorem disabled_provider_is_hidden_witness:
  "get ''kimi'' (fst (disable ''kimi'' 20
      [(''kimi'',
           \<lparr>entryProvider =
              \<lparr>providerApi = ''kimi'',
               providerStream = wrapStream ''kimi'' (\<lambda>m (c::unit). Inr (modelId m)),
               providerStreamSimple = wrapStream ''kimi'' (\<lambda>m c. Inr (modelId m))\<rparr>,
            entryMetadata = \<lparr>sourceId = None, version = None, enabled = True,
                             registeredAt = 10, updatedAt = 10\<rparr>\<rparr>)])) = None
   \<and> stream (\<lambda>c. True) (fst (disable ''kimi'' 20
      [(''kimi'',
           \<lparr>entryProvider =
              \<lparr>providerApi = ''kimi'',
               providerStream = wrapStream ''kimi'' (\<lambda>m (c::unit). Inr (modelId m)),
               providerStreamSimple = wrapStream ''kimi'' (\<lambda>m c. Inr (modelId m))\<rparr>,
            entryMetadata = \<lparr>sourceId = None, version = None, enabled = True,
                             registeredAt = 10, updatedAt = 10\<rparr>\<rparr>)]))
       \<lparr>modelId = ''k2'', modelApi = ''kimi'', modelProvider = ''moonshot''\<rparr> () =
       Inl (NoApiProviderRegistered ''kimi'')
   \<and> get ''kimi'' (fst (enable ''kimi'' 30 (fst (disable ''kimi'' 20
      [(''kimi'',
           \<lparr>entryProvider =
              \<lparr>providerApi = ''kimi'',
               providerStream = wrapStream ''kimi'' (\<lambda>m (c::unit). Inr (modelId m)),
               providerStreamSimple = wrapStream ''kimi'' (\<lambda>m c. Inr (modelId m))\<rparr>,
            entryMetadata = \<lparr>sourceId = None, version = None, enabled = True,
                             registeredAt = 10, updatedAt = 10\<rparr>\<rparr>)])))) =
       Some \<lparr>providerApi = ''kimi'',
               providerStream = wrapStream ''kimi'' (\<lambda>m (c::unit). Inr (modelId m)),
               providerStreamSimple = wrapStream ''kimi'' (\<lambda>m c. Inr (modelId m))\<rparr>"
proof -
  let ?p = "\<lparr>providerApi = ''kimi'',
               providerStream = wrapStream ''kimi'' (\<lambda>m (c::unit). Inr (modelId m) :: entry_error + string),
               providerStreamSimple = wrapStream ''kimi'' (\<lambda>m c. Inr (modelId m))\<rparr>"
  let ?e = "\<lparr>entryProvider = ?p,
            entryMetadata = \<lparr>sourceId = None, version = None, enabled = True,
                             registeredAt = 10, updatedAt = 10\<rparr>\<rparr>"
  have ok: "registry_ok [(''kimi'', ?e)]" by (simp add: registry_ok_def)
  have look: "getWithMetadata ''kimi'' [(''kimi'', ?e)] = Some ?e"
    by (simp add: getWithMetadata_def)
  have valid: "validateModel \<lparr>modelId = ''k2'', modelApi = ''kimi'', modelProvider = ''moonshot''\<rparr> = None"
    by (simp add: validateModel_def)
  from disabled_provider_is_hidden [OF ok look, of 20 "[]"
      "\<lparr>modelId = ''k2'', modelApi = ''kimi'', modelProvider = ''moonshot''\<rparr>"
      "\<lambda>c. True" "()" 30] valid
  show ?thesis by simp
qed

end
